theory Spec2Isabelle
  imports Main
begin

section \<open>Data model\<close>

text \<open>
  The server (\<^verbatim>\<open>server.js\<close>) keeps no state of its own: every handler works on a Redis
  instance and a Postgres database. The store below holds exactly the parts of both that
  the handlers read or write.

  \<^item> \<open>key_set\<close>: the members of the Redis set named \<^verbatim>\<open>KEY_SET\<close>. Redis sets have no
    order and no duplicates; the list is read through \<open>set\<close>, insertion is
    \<open>redis_sAdd\<close> (no second copy) and removal deletes every copy.
  \<^item> \<open>redis_kv\<close>: the Redis string keys (\<^verbatim>\<open>page_ttl:\<close> and the page id) with their time to live
    in seconds and their value. The passing of time is not modelled: a marker stays until
    it is deleted.
  \<^item> \<open>keys\<close>: the table \<^verbatim>\<open>keys\<close> of \<^verbatim>\<open>migrate.js\<close>, with the two columns the server
    reads. \<^verbatim>\<open>deprecated BOOLEAN DEFAULT false\<close> is nullable, hence \<open>bool option\<close>.
  \<^item> \<open>issued_pages\<close>: the table \<^verbatim>\<open>issued_pages\<close>, a list of rows with the primary key
    \<^verbatim>\<open>id\<close> first. The column is of type \<^verbatim>\<open>UUID\<close> (\<^verbatim>\<open>migrate.js\<close>): the key is the
    uuid value, not the text a request wrote. A row is found by \<open>map_of\<close>.

  Outside the model: the rate limiter in front of \<^verbatim>\<open>/claim\<close>, the headers that
  \<^verbatim>\<open>helmet\<close> adds, what the handlers write to the console, the connection pool, and
  the scripts that run beside the server (\<^verbatim>\<open>migrate.js\<close>, \<^verbatim>\<open>seed_keys.js\<close>,
  \<^verbatim>\<open>seed_redis_from_db.js\<close>), none of which writes to \<^verbatim>\<open>issued_pages\<close>.
\<close>

record config =
  KEY_SET :: string
  CLAIM_TTL_SECONDS :: int
  ADMIN_TOKEN :: "string option"

record key_row =
  key_text :: string
  deprecated :: "bool option"

type_synonym uuid = string

record issued_row =
  issued_key_text :: string
  created_at :: nat
  used :: bool
  used_at :: "nat option"
  ip :: "string option"
  user_agent :: "string option"

record store =
  key_set :: "string list"
  redis_kv :: "string \<Rightarrow> (int \<times> string) option"
  keys :: "key_row list"
  issued_pages :: "(uuid \<times> issued_row) list"

text \<open>
  A store call that throws is a value \<open>Inl StoreFault\<close>. A call throws for a reason of
  its own (a primary key that exists, text that is not a uuid), written out in its
  definition, or for a reason outside the program (a lost connection, a time-out), decided
  by the environment of the request: every store operation takes a flag \<open>fails\<close>. A call
  that throws has had no effect.
\<close>

datatype fault = StoreFault

datatype response =
    Send nat "(string \<times> string) list" string
  | Redirect string
  | Json "(string \<times> string \<times> bool \<times> nat \<times> nat option \<times> string option) list"
  | Unhandled

text \<open>
  \<open>Send status headers body\<close> is \<^verbatim>\<open>res.status(status).send(body)\<close> with the headers the
  handler set itself; \<open>Unhandled\<close> is a rejection that leaves the handler (an
  \<^verbatim>\<open>await\<close> outside every \<^verbatim>\<open>try\<close>): the handler sends nothing.
\<close>

section \<open>JavaScript values\<close>

datatype jsval = JUndefined | JNull | JBool bool | JNum int | JStr string | JObject

fun truthy :: "jsval \<Rightarrow> bool" where
  "truthy JUndefined = False"
| "truthy JNull = False"
| "truthy (JBool b) = b"
| "truthy (JNum n) = (n \<noteq> 0)"
| "truthy (JStr s) = (s \<noteq> [])"
| "truthy JObject = True"

text \<open>\<^verbatim>\<open>a || b\<close> on an optional string (\<^verbatim>\<open>undefined\<close> and \<^verbatim>\<open>''\<close> are falsy).\<close>

fun js_or :: "string option \<Rightarrow> string option \<Rightarrow> string option" where
  "js_or None b = b"
| "js_or (Some a) b = (if a = [] then b else Some a)"

text \<open>\<^verbatim>\<open>token !== process.env.ADMIN_TOKEN\<close>: an environment variable is a string or absent.\<close>

fun strict_neq :: "jsval \<Rightarrow> string option \<Rightarrow> bool" where
  "strict_neq (JStr t) (Some a) = (t \<noteq> a)"
| "strict_neq JUndefined None = False"
| "strict_neq _ _ = True"

section \<open>Utility\<close>

fun escapeChar :: "char \<Rightarrow> string" where
  "escapeChar c =
     (if c = CHR ''&'' then ''&amp;''
      else if c = CHR ''<'' then ''&lt;''
      else if c = CHR ''>'' then ''&gt;''
      else if c = CHR 0x22 then ''&quot;''
      else if c = CHR 0x27 then ''&#39;''
      else [c])"

definition escapeHtml :: "string \<Rightarrow> string" where
  "escapeHtml s = concat (map escapeChar s)"

fun digit_char :: "nat \<Rightarrow> char" where
  "digit_char n = ''0123456789'' ! n"

function show_nat :: "nat \<Rightarrow> string" where
  "show_nat n = (if n < 10 then [digit_char n] else show_nat (n div 10) @ [digit_char (n mod 10)])"
  by pat_completeness auto
termination
  by (relation "measure (\<lambda>n. n)") auto

section \<open>Redis\<close>

text \<open>
  \<^verbatim>\<open>SPOP\<close> removes and returns a random member, or returns \<^verbatim>\<open>null\<close> on an empty set.
  The random choice is the number \<open>rnd\<close> of the request's environment: every member
  can be chosen.
\<close>

definition redis_sPop :: "bool \<Rightarrow> nat \<Rightarrow> store \<Rightarrow> fault + (string option \<times> store)" where
  "redis_sPop fails rnd s =
     (if fails then Inl StoreFault
      else if key_set s = [] then Inr (None, s)
      else let k = key_set s ! (rnd mod length (key_set s))
           in Inr (Some k, s\<lparr>key_set := removeAll k (key_set s)\<rparr>))"

definition redis_sAdd :: "string \<Rightarrow> string list \<Rightarrow> string list" where
  "redis_sAdd k ks = (if k \<in> set ks then ks else ks @ [k])"

text \<open>\<^verbatim>\<open>redis.multi()\<close>, one \<^verbatim>\<open>sAdd\<close> per row, \<^verbatim>\<open>exec()\<close>.\<close>

definition redis_multi_sAdd_exec :: "bool \<Rightarrow> string list \<Rightarrow> store \<Rightarrow> fault + store" where
  "redis_multi_sAdd_exec fails ks s =
     (if fails then Inl StoreFault
      else Inr (s\<lparr>key_set := foldl (\<lambda>acc k. redis_sAdd k acc) (key_set s) ks\<rparr>))"

definition redis_setEx :: "bool \<Rightarrow> string \<Rightarrow> int \<Rightarrow> string \<Rightarrow> store \<Rightarrow> fault + store" where
  "redis_setEx fails k ttl v s =
     (if fails then Inl StoreFault else Inr (s\<lparr>redis_kv := (redis_kv s)(k \<mapsto> (ttl, v))\<rparr>))"

definition redis_del :: "bool \<Rightarrow> string \<Rightarrow> store \<Rightarrow> fault + store" where
  "redis_del fails k s =
     (if fails then Inl StoreFault else Inr (s\<lparr>redis_kv := (redis_kv s)(k := None)\<rparr>))"

section \<open>Postgres\<close>

subsection \<open>The type of the column \<^verbatim>\<open>id\<close>\<close>

text \<open>
  The handlers pass the page id to Postgres as text, and Postgres reads it as a value of
  the column's type \<^verbatim>\<open>UUID\<close>. That reading is not code of the repository; it is
  PostgreSQL's input function of the type (\<^verbatim>\<open>string_to_uuid\<close>): an optional opening
  brace, sixteen times two hexadecimal digits in either case, a hyphen allowed after every
  second pair but the last, the closing brace if there was an opening one, and nothing
  else. Text of any other form is a syntax error, and the statement throws.

  A uuid value is kept here as its 32 digits in lower case, so two texts are the same id
  exactly when they are read as the same value. \<open>uuid_out\<close> is the text Postgres
  writes for a value.
\<close>

definition hex_digit :: "char \<Rightarrow> char option" where
  "hex_digit c =
     (if c \<in> set ''0123456789abcdef'' then Some c
      else map_of [(CHR ''A'', CHR ''a''), (CHR ''B'', CHR ''b''), (CHR ''C'', CHR ''c''),
                   (CHR ''D'', CHR ''d''), (CHR ''E'', CHR ''e''), (CHR ''F'', CHR ''f'')] c)"

fun skip_hyphen :: "string \<Rightarrow> string" where
  "skip_hyphen [] = []"
| "skip_hyphen (c # src) = (if c = CHR ''-'' then src else c # src)"

text \<open>
  \<open>uuid_digits n src\<close> reads the last \<open>n\<close> of the sixteen pairs: the digits read and
  what is left of the text. The pair read with \<open>n\<close> pairs still to come is pair number
  \<open>15 - n\<close>; a hyphen may follow it when that number is odd and it is not the last.
\<close>

fun uuid_digits :: "nat \<Rightarrow> string \<Rightarrow> (string \<times> string) option" where
  "uuid_digits 0 src = Some ([], src)"
| "uuid_digits (Suc n) (a # b # src) =
     (case hex_digit a of
        None \<Rightarrow> None
      | Some x \<Rightarrow>
          (case hex_digit b of
             None \<Rightarrow> None
           | Some y \<Rightarrow>
               (case uuid_digits n (if even n \<and> 0 < n then skip_hyphen src else src) of
                  None \<Rightarrow> None
                | Some (ds, rest) \<Rightarrow> Some (x # y # ds, rest))))"
| "uuid_digits (Suc n) src = None"

definition uuid_in :: "string \<Rightarrow> uuid option" where
  "uuid_in src =
     (case src of
        [] \<Rightarrow> None
      | c # src1 \<Rightarrow>
          if c = CHR ''{'' then
            (case uuid_digits 16 src1 of
               None \<Rightarrow> None
             | Some (ds, rest) \<Rightarrow> if rest = ''}'' then Some ds else None)
          else
            (case uuid_digits 16 src of
               None \<Rightarrow> None
             | Some (ds, rest) \<Rightarrow> if rest = [] then Some ds else None))"

definition uuid_out :: "uuid \<Rightarrow> string" where
  "uuid_out u =
     take 8 u @ ''-'' @ take 4 (drop 8 u) @ ''-'' @ take 4 (drop 12 u) @ ''-'' @
     take 4 (drop 16 u) @ ''-'' @ drop 20 u"

subsection \<open>The statements\<close>

text \<open>
  \<^verbatim>\<open>INSERT INTO issued_pages(id, key_text, created_at, used) VALUES($1, $2, now(), false)\<close>:
  the other columns are \<^verbatim>\<open>NULL\<close>; \<^verbatim>\<open>id\<close> is the primary key, so the statement throws
  when a row with this id exists.
\<close>

definition pg_insert_issued :: "bool \<Rightarrow> string \<Rightarrow> string \<Rightarrow> nat \<Rightarrow> store \<Rightarrow> fault + store" where
  "pg_insert_issued fails pid k now s =
     (if fails then Inl StoreFault
      else
        (case uuid_in pid of
           None \<Rightarrow> Inl StoreFault
         | Some u \<Rightarrow>
             if map_of (issued_pages s) u \<noteq> None then Inl StoreFault
             else Inr (s\<lparr>issued_pages := issued_pages s @
                    [(u, \<lparr>issued_key_text = k, created_at = now, used = False,
                           used_at = None, ip = None, user_agent = None\<rparr>)]\<rparr>)))"

text \<open>
  A transaction works on its own copy of the table: \<^verbatim>\<open>BEGIN\<close> takes it, \<^verbatim>\<open>UPDATE\<close>
  changes it, \<^verbatim>\<open>COMMIT\<close> installs it and \<^verbatim>\<open>ROLLBACK\<close> drops it.
\<close>

definition pg_connect :: "bool \<Rightarrow> fault + unit" where
  "pg_connect fails = (if fails then Inl StoreFault else Inr ())"

definition pg_begin :: "bool \<Rightarrow> store \<Rightarrow> fault + (uuid \<times> issued_row) list" where
  "pg_begin fails s = (if fails then Inl StoreFault else Inr (issued_pages s))"

text \<open>
  \<^verbatim>\<open>SELECT key_text, used FROM issued_pages WHERE id = $1 FOR UPDATE\<close>: the rows found.
  For a page id that is not uuid text the statement throws; any text of the row's uuid
  finds the row.
\<close>

definition pg_select_for_update ::
  "bool \<Rightarrow> string \<Rightarrow> (uuid \<times> issued_row) list \<Rightarrow> fault + issued_row list" where
  "pg_select_for_update fails pid tx =
     (if fails then Inl StoreFault
      else
        (case uuid_in pid of
           None \<Rightarrow> Inl StoreFault
         | Some u \<Rightarrow> Inr (case map_of tx u of None \<Rightarrow> [] | Some r \<Rightarrow> [r])))"

text \<open>
  \<^verbatim>\<open>UPDATE issued_pages SET used = true, used_at = now(), ip = $2, user_agent = $3 WHERE id = $1\<close>
\<close>

definition mark_used :: "nat \<Rightarrow> string option \<Rightarrow> string \<Rightarrow> issued_row \<Rightarrow> issued_row" where
  "mark_used now cip ua r = r\<lparr>used := True, used_at := Some now, ip := cip, user_agent := Some ua\<rparr>"

definition pg_update_used ::
  "bool \<Rightarrow> string \<Rightarrow> nat \<Rightarrow> string option \<Rightarrow> string \<Rightarrow> (uuid \<times> issued_row) list
     \<Rightarrow> fault + (uuid \<times> issued_row) list" where
  "pg_update_used fails pid now cip ua tx =
     (if fails then Inl StoreFault
      else
        (case uuid_in pid of
           None \<Rightarrow> Inl StoreFault
         | Some u \<Rightarrow>
             Inr (map (\<lambda>(i, r). if i = u then (i, mark_used now cip ua r) else (i, r)) tx)))"

definition pg_commit :: "bool \<Rightarrow> (uuid \<times> issued_row) list \<Rightarrow> store \<Rightarrow> fault + store" where
  "pg_commit fails tx s = (if fails then Inl StoreFault else Inr (s\<lparr>issued_pages := tx\<rparr>))"

definition pg_rollback :: "bool \<Rightarrow> fault + unit" where
  "pg_rollback fails = (if fails then Inl StoreFault else Inr ())"

text \<open>\<^verbatim>\<open>SELECT key_text FROM keys WHERE deprecated = false\<close> (a \<^verbatim>\<open>NULL\<close> flag is not false).\<close>

definition pg_select_keys :: "bool \<Rightarrow> store \<Rightarrow> fault + string list" where
  "pg_select_keys fails s =
     (if fails then Inl StoreFault
      else Inr (map key_text (filter (\<lambda>r. deprecated r = Some False) (keys s))))"

text \<open>
  \<^verbatim>\<open>SELECT id, key_text, used, created_at, used_at, ip FROM issued_pages
  ORDER BY created_at DESC LIMIT 200\<close>. Postgres leaves the order of rows with the same
  \<^verbatim>\<open>created_at\<close> open; here the later row comes first.
\<close>

definition pg_select_recent ::
  "bool \<Rightarrow> store \<Rightarrow> fault + (string \<times> string \<times> bool \<times> nat \<times> nat option \<times> string option) list" where
  "pg_select_recent fails s =
     (if fails then Inl StoreFault
      else Inr (map (\<lambda>(i, r). (uuid_out i, issued_key_text r, used r, created_at r, used_at r, ip r))
                  (take 200 (rev (sort_key (\<lambda>(i, r). created_at r) (issued_pages s))))))"

section \<open>Claim endpoint\<close>

record claim_env =
  sPop_fails :: bool
  rnd :: nat
  uuid :: string
  now :: nat
  insert_fails :: bool
  setEx_fails :: bool

definition server_error :: response where
  "server_error = Send 500 [] ''Server error''"

definition no_keys_available :: response where
  "no_keys_available = Send 404 [] ''No keys available''"

text \<open>
  \<^verbatim>\<open>app.get('/claim', ...)\<close>. \<^verbatim>\<open>!poppedKey\<close> holds for \<^verbatim>\<open>null\<close> and for the empty
  string. Every store call is inside the one \<^verbatim>\<open>try\<close>, whose \<^verbatim>\<open>catch\<close> answers 500.
\<close>

definition claim :: "config \<Rightarrow> claim_env \<Rightarrow> store \<Rightarrow> response \<times> store" where
  "claim cfg env s =
     (case redis_sPop (sPop_fails env) (rnd env) s of
        Inl e \<Rightarrow> (server_error, s)
      | Inr (poppedKey, s1) \<Rightarrow>
          (case poppedKey of
             None \<Rightarrow> (no_keys_available, s1)
           | Some k \<Rightarrow>
               if k = [] then (no_keys_available, s1)
               else
                 (let pageId = uuid env in
                  case pg_insert_issued (insert_fails env) pageId k (now env) s1 of
                    Inl e \<Rightarrow> (server_error, s1)
                  | Inr s2 \<Rightarrow>
                      (case redis_setEx (setEx_fails env) (''page_ttl:'' @ pageId)
                              (CLAIM_TTL_SECONDS cfg) ''1'' s2 of
                         Inl e \<Rightarrow> (server_error, s2)
                       | Inr s3 \<Rightarrow> (Redirect (''/key/'' @ pageId), s3)))))"

section \<open>Serving the key once\<close>

record key_request =
  params_pageId :: string
  req_ip :: "string option"
  remoteAddress :: "string option"
  header_user_agent :: "string option"

record key_env =
  connect_fails :: bool
  begin_fails :: bool
  select_fails :: bool
  rollback_fails :: bool
  update_fails :: bool
  commit_fails :: bool
  del_fails :: bool
  key_now :: nat

definition invalid_link :: response where
  "invalid_link = Send 404 [] ''Invalid or expired link''"

definition already_claimed :: response where
  "already_claimed = Send 410 [] ''This key has already been claimed''"

definition key_page :: "string \<Rightarrow> string" where
  "key_page keyText =
     ''<html><head><meta name='' @ [CHR 0x22] @ ''robots'' @ [CHR 0x22] @ '' content='' @
     [CHR 0x22] @ ''noindex'' @ [CHR 0x22] @ ''></head><body><h1>Your Key</h1><p style='' @
     [CHR 0x22] @ ''font-family:monospace;font-size:18px;'' @ [CHR 0x22] @ ''>'' @
     escapeHtml keyText @
     ''</p><p>Do not share this link '' @ [CHR 0xE2, CHR 0x80, CHR 0x94] @
     '' it is single-use.</p></body></html>''"

definition serve_key :: "string \<Rightarrow> response" where
  "serve_key keyText =
     Send 200 [(''Cache-Control'', ''no-store, no-cache, must-revalidate, private'')]
       (key_page keyText)"

definition clientIp :: "key_request \<Rightarrow> string option" where
  "clientIp req = js_or (req_ip req) (remoteAddress req)"

definition ua :: "key_request \<Rightarrow> string" where
  "ua req = (case js_or (header_user_agent req) (Some []) of None \<Rightarrow> [] | Some a \<Rightarrow> a)"

text \<open>
  \<^verbatim>\<open>app.get('/key/:pageId', ...)\<close>. \<^verbatim>\<open>pg.connect()\<close> is awaited before the \<^verbatim>\<open>try\<close>.
  The \<^verbatim>\<open>catch\<close> sends \<^verbatim>\<open>ROLLBACK\<close>, ignoring its failure, and answers 500: what the
  transaction has not committed is gone, what it has committed stays.
\<close>

definition get_key :: "key_request \<Rightarrow> key_env \<Rightarrow> store \<Rightarrow> response \<times> store" where
  "get_key req env s =
     (let pageId = params_pageId req in
      case pg_connect (connect_fails env) of
        Inl e \<Rightarrow> (Unhandled, s)
      | Inr client \<Rightarrow>
      (case pg_begin (begin_fails env) s of
        Inl e \<Rightarrow> (server_error, s)
      | Inr tx \<Rightarrow>
      (case pg_select_for_update (select_fails env) pageId tx of
        Inl e \<Rightarrow> (server_error, s)
      | Inr rows \<Rightarrow>
      (case rows of
        [] \<Rightarrow>
          (case pg_rollback (rollback_fails env) of
             Inl e \<Rightarrow> (server_error, s)
           | Inr u \<Rightarrow> (invalid_link, s))
      | row # rest \<Rightarrow>
          if used row then
            (case pg_rollback (rollback_fails env) of
               Inl e \<Rightarrow> (server_error, s)
             | Inr u \<Rightarrow> (already_claimed, s))
          else
            (case pg_update_used (update_fails env) pageId (key_now env) (clientIp req) (ua req) tx of
               Inl e \<Rightarrow> (server_error, s)
             | Inr tx' \<Rightarrow>
            (case pg_commit (commit_fails env) tx' s of
               Inl e \<Rightarrow> (server_error, s)
             | Inr s1 \<Rightarrow>
            (case redis_del (del_fails env) (''page_ttl:'' @ pageId) s1 of
               Inl e \<Rightarrow> (server_error, s1)
             | Inr s2 \<Rightarrow> (serve_key (issued_key_text row), s2))))))))"

section \<open>Admin endpoints\<close>

record admin_request =
  header_x_admin_token :: "string option"
  body_token :: jsval

record seed_env =
  select_keys_fails :: bool
  exec_fails :: bool

definition unauthorized :: response where
  "unauthorized = Send 401 [] ''unauthorized''"

text \<open>\<^verbatim>\<open>req.get('x-admin-token') || req.body?.token\<close>\<close>

definition seed_token :: "admin_request \<Rightarrow> jsval" where
  "seed_token req =
     (case header_x_admin_token req of
        None \<Rightarrow> body_token req
      | Some h \<Rightarrow> if h = [] then body_token req else JStr h)"

definition admin_seed_redis :: "config \<Rightarrow> admin_request \<Rightarrow> seed_env \<Rightarrow> store \<Rightarrow> response \<times> store" where
  "admin_seed_redis cfg req env s =
     (let token = seed_token req in
      if \<not> truthy token \<or> strict_neq token (ADMIN_TOKEN cfg) then (unauthorized, s)
      else
        (case pg_select_keys (select_keys_fails env) s of
           Inl e \<Rightarrow> (Send 500 [] ''server error'', s)
         | Inr rows \<Rightarrow>
             if length rows = 0 then (Send 200 [] ''no keys in DB'', s)
             else
               (case redis_multi_sAdd_exec (exec_fails env) rows s of
                  Inl e \<Rightarrow> (Send 500 [] ''server error'', s)
                | Inr s1 \<Rightarrow>
                    (Send 200 []
                       (''seeded '' @ show_nat (length rows) @ '' keys to redis set '' @ KEY_SET cfg),
                     s1))))"

text \<open>\<^verbatim>\<open>app.get('/admin/issued', ...)\<close>: only the header is read, and nothing is caught.\<close>

definition issued_token :: "admin_request \<Rightarrow> jsval" where
  "issued_token req = (case header_x_admin_token req of None \<Rightarrow> JUndefined | Some h \<Rightarrow> JStr h)"

definition admin_issued :: "config \<Rightarrow> admin_request \<Rightarrow> bool \<Rightarrow> store \<Rightarrow> response \<times> store" where
  "admin_issued cfg req query_fails s =
     (let token = issued_token req in
      if \<not> truthy token \<or> strict_neq token (ADMIN_TOKEN cfg) then (unauthorized, s)
      else
        (case pg_select_recent query_fails s of
           Inl e \<Rightarrow> (Unhandled, s)
         | Inr rows \<Rightarrow> (Json rows, s)))"

section \<open>The server as a state machine\<close>

datatype request =
    Claim claim_env
  | Key key_request key_env
  | SeedRedis admin_request seed_env
  | Issued admin_request bool

fun handle :: "config \<Rightarrow> request \<Rightarrow> store \<Rightarrow> response \<times> store" where
  "handle cfg (Claim env) s = claim cfg env s"
| "handle cfg (Key req env) s = get_key req env s"
| "handle cfg (SeedRedis req env) s = admin_seed_redis cfg req env s"
| "handle cfg (Issued req query_fails) s = admin_issued cfg req query_fails s"

text \<open>Requests served one after the other: the responses, and the store at the end.\<close>

fun run :: "config \<Rightarrow> request list \<Rightarrow> store \<Rightarrow> response list \<times> store" where
  "run cfg [] s = ([], s)"
| "run cfg (r # rs) s =
     (let (resp, s1) = handle cfg r s; (resps, s2) = run cfg rs s1 in (resp # resps, s2))"

text \<open>The same run, step by step: the store before, the request, the response, the store after.\<close>

fun steps :: "config \<Rightarrow> request list \<Rightarrow> store \<Rightarrow> (store \<times> request \<times> response \<times> store) list" where
  "steps cfg [] s = []"
| "steps cfg (r # rs) s = (s, r, handle cfg r s) # steps cfg rs (snd (handle cfg r s))"

section \<open>Concurrent requests for a key\<close>

text \<open>
  Several \<^verbatim>\<open>GET /key/:pageId\<close> requests in flight at once. Each client is the handler
  above cut at its \<^verbatim>\<open>await\<close>s: the program counter \<open>pc\<close> says which store call comes
  next and carries the handler's local variables (the row read by the \<^verbatim>\<open>SELECT\<close>). One
  step of a client is one store call, atomic in the store; the clients' steps interleave
  in any order.

  What Postgres does with the statements of the source:
  \<^item> \<^verbatim>\<open>SELECT ... FOR UPDATE\<close> locks the row it finds until the transaction ends. While
    another transaction holds that lock the statement waits (the client has no step);
    once it has the lock it reads the row as last committed.
  \<^item> \<^verbatim>\<open>UPDATE\<close> is pending in the transaction until \<^verbatim>\<open>COMMIT\<close> applies it to the
    table; \<^verbatim>\<open>COMMIT\<close> and \<^verbatim>\<open>ROLLBACK\<close> release the locks of the transaction.
\<close>

datatype pc = P_connect | P_begin | P_select | P_rollback response | P_update issued_row
  | P_commit issued_row | P_del issued_row | P_catch | P_done response

type_synonym pending = "(uuid \<times> nat \<times> string option \<times> string) list"

record world =
  w_store :: store
  w_locks :: "uuid \<Rightarrow> nat option"

definition release :: "nat \<Rightarrow> (uuid \<Rightarrow> nat option) \<Rightarrow> (uuid \<Rightarrow> nat option)" where
  "release i locks = (\<lambda>p. if locks p = Some i then None else locks p)"

fun apply_pending :: "pending \<Rightarrow> (uuid \<times> issued_row) list \<Rightarrow> (uuid \<times> issued_row) list" where
  "apply_pending [] tbl = tbl"
| "apply_pending ((pid, t, cip, agent) # ws) tbl =
     apply_pending ws (map (\<lambda>(i, r). if i = pid then (i, mark_used t cip agent r) else (i, r)) tbl)"

text \<open>
  One store call of client \<open>i\<close>. \<open>None\<close>: the client has no step now (it waits for the
  row lock, or it has answered).
\<close>

fun client_step ::
  "nat \<Rightarrow> key_request \<Rightarrow> key_env \<Rightarrow> pc \<times> pending \<Rightarrow> world \<Rightarrow> ((pc \<times> pending) \<times> world) option" where
  "client_step i req env (P_connect, ws) w =
     Some (if connect_fails env then (P_done Unhandled, ws) else (P_begin, ws), w)"
| "client_step i req env (P_begin, ws) w =
     Some (if begin_fails env then (P_catch, ws) else (P_select, ws), w)"
| "client_step i req env (P_select, ws) w =
     (if select_fails env then Some ((P_catch, ws), w)
      else
        (case uuid_in (params_pageId req) of
           None \<Rightarrow> Some ((P_catch, ws), w)
         | Some u \<Rightarrow>
        (case map_of (issued_pages (w_store w)) u of
           None \<Rightarrow> Some ((P_rollback invalid_link, ws), w)
         | Some row \<Rightarrow>
             if w_locks w u \<noteq> None \<and> w_locks w u \<noteq> Some i
             then None
             else Some ((if used row then P_rollback already_claimed else P_update row, ws),
                        w\<lparr>w_locks := (w_locks w)(u \<mapsto> i)\<rparr>))))"
| "client_step i req env (P_rollback resp, ws) w =
     (if rollback_fails env then Some ((P_catch, ws), w)
      else Some ((P_done resp, []), w\<lparr>w_locks := release i (w_locks w)\<rparr>))"
| "client_step i req env (P_update row, ws) w =
     (if update_fails env then Some ((P_catch, ws), w)
      else
        (case uuid_in (params_pageId req) of
           None \<Rightarrow> Some ((P_catch, ws), w)
         | Some u \<Rightarrow> Some ((P_commit row, ws @ [(u, key_now env, clientIp req, ua req)]), w)))"
| "client_step i req env (P_commit row, ws) w =
     (if commit_fails env then Some ((P_catch, ws), w)
      else Some ((P_del row, []),
                 w\<lparr>w_store := (w_store w)\<lparr>issued_pages := apply_pending ws (issued_pages (w_store w))\<rparr>,
                   w_locks := release i (w_locks w)\<rparr>))"
| "client_step i req env (P_del row, ws) w =
     (if del_fails env then Some ((P_catch, ws), w)
      else Some ((P_done (serve_key (issued_key_text row)), ws),
                 w\<lparr>w_store := (w_store w)\<lparr>redis_kv := (redis_kv (w_store w))(''page_ttl:'' @ params_pageId req := None)\<rparr>\<rparr>))"
| "client_step i req env (P_catch, ws) w =
     Some ((P_done server_error, []), w\<lparr>w_locks := release i (w_locks w)\<rparr>)"
| "client_step i req env (P_done resp, ws) w = None"

type_synonym conf = "(pc \<times> pending) list \<times> world"

definition conc_step :: "(key_request \<times> key_env) list \<Rightarrow> nat \<Rightarrow> conf \<Rightarrow> conf option" where
  "conc_step cl i c =
     (if i < length cl \<and> i < length (fst c) then
        (case client_step i (fst (cl ! i)) (snd (cl ! i)) (fst c ! i) (snd c) of
           None \<Rightarrow> None
         | Some (p, w) \<Rightarrow> Some ((fst c)[i := p], w))
      else None)"

text \<open>
  An interleaving is the list of the clients that step, in order. \<open>exec\<close> runs it;
  \<open>None\<close>: the list asks a client to step that has no step.
\<close>

fun exec :: "(key_request \<times> key_env) list \<Rightarrow> nat list \<Rightarrow> conf \<Rightarrow> conf option" where
  "exec cl [] c = Some c"
| "exec cl (i # sched) c = (case conc_step cl i c of None \<Rightarrow> None | Some c1 \<Rightarrow> exec cl sched c1)"

definition start :: "nat \<Rightarrow> store \<Rightarrow> conf" where
  "start n s = (replicate n (P_connect, []), \<lparr>w_store = s, w_locks = \<lambda>p. None\<rparr>)"

text \<open>A client alone, for at most \<open>n\<close> store calls.\<close>

fun solo :: "nat \<Rightarrow> key_request \<Rightarrow> key_env \<Rightarrow> (pc \<times> pending) \<times> world \<Rightarrow> (pc \<times> pending) \<times> world" where
  "solo 0 req env c = c"
| "solo (Suc n) req env c =
     (case client_step 0 req env (fst c) (snd c) of None \<Rightarrow> c | Some c1 \<Rightarrow> solo n req env c1)"

section \<open>Notions of the specification\<close>

text \<open>The entry \<^verbatim>\<open>SPOP\<close> picks from a non-empty pool.\<close>

definition popped :: "claim_env \<Rightarrow> store \<Rightarrow> string" where
  "popped env s = key_set s ! (rnd env mod length (key_set s))"

text \<open>
  The issued link with a given uuid; the issued link that the text \<open>pid\<close> names (none
  when the text is no uuid); and whether that link is consumed.
\<close>

definition row_at :: "store \<Rightarrow> uuid \<Rightarrow> issued_row option" where
  "row_at s u = map_of (issued_pages s) u"

definition row_of :: "store \<Rightarrow> string \<Rightarrow> issued_row option" where
  "row_of s pid = (case uuid_in pid of None \<Rightarrow> None | Some u \<Rightarrow> row_at s u)"

definition consumed :: "store \<Rightarrow> string \<Rightarrow> bool" where
  "consumed s pid = (case row_of s pid of None \<Rightarrow> False | Some r \<Rightarrow> used r)"

fun status_200 :: "response \<Rightarrow> bool" where
  "status_200 (Send st hs body) = (st = 200)"
| "status_200 _ = False"

text \<open>
  A step delivers the key of link \<open>pid\<close>: a key request answered 200 whose page id is
  \<open>pid\<close> or another text of the same uuid.
\<close>

fun delivers :: "string \<Rightarrow> store \<times> request \<times> response \<times> store \<Rightarrow> bool" where
  "delivers pid (s, Key req env, resp, s1) =
     (uuid_in (params_pageId req) = uuid_in pid \<and> status_200 resp)"
| "delivers pid _ = False"

text \<open>A step takes link \<open>pid\<close> from unconsumed to consumed.\<close>

fun flips :: "string \<Rightarrow> store \<times> request \<times> response \<times> store \<Rightarrow> bool" where
  "flips pid (s, rq, resp, s1) = (row_of s pid \<noteq> None \<and> \<not> consumed s pid \<and> consumed s1 pid)"

text \<open>A key with none of the five characters that \<open>escapeHtml\<close> replaces.\<close>

definition plain :: "string \<Rightarrow> bool" where
  "plain k = list_all (\<lambda>c. c \<notin> set ''&<>'' \<and> c \<noteq> CHR 0x22 \<and> c \<noteq> CHR 0x27) k"

text \<open>No store call of a key request throws.\<close>

definition no_key_faults :: "key_env \<Rightarrow> bool" where
  "no_key_faults env =
     (\<not> connect_fails env \<and> \<not> begin_fails env \<and> \<not> select_fails env \<and> \<not> rollback_fails env
      \<and> \<not> update_fails env \<and> \<not> commit_fails env \<and> \<not> del_fails env)"

text \<open>The supplied credential is the configured admin token.\<close>

definition credential_matches :: "config \<Rightarrow> jsval \<Rightarrow> bool" where
  "credential_matches cfg token = (case ADMIN_TOKEN cfg of None \<Rightarrow> False | Some a \<Rightarrow> token = JStr a)"

text \<open>The refill request passes the token check of the handler.\<close>

definition seed_accepted :: "config \<Rightarrow> admin_request \<Rightarrow> bool" where
  "seed_accepted cfg req = (truthy (seed_token req) \<and> \<not> strict_neq (seed_token req) (ADMIN_TOKEN cfg))"

text \<open>The key values of the catalog that are not deprecated.\<close>

definition selected_keys :: "store \<Rightarrow> string list" where
  "selected_keys s = map key_text (filter (\<lambda>r. deprecated r = Some False) (keys s))"

text \<open>
  A client is in its critical section from the \<^verbatim>\<open>SELECT ... FOR UPDATE\<close> that found the
  row to the \<^verbatim>\<open>COMMIT\<close> or \<^verbatim>\<open>ROLLBACK\<close>.
\<close>

fun in_cs :: "pc \<Rightarrow> bool" where
  "in_cs (P_rollback resp) = True"
| "in_cs (P_update row) = True"
| "in_cs (P_commit row) = True"
| "in_cs _ = False"

fun is_done :: "pc \<Rightarrow> bool" where
  "is_done (P_done resp) = True"
| "is_done _ = False"

text \<open>A bound on the store calls a client still makes.\<close>

fun remaining :: "pc \<Rightarrow> nat" where
  "remaining P_connect = 8"
| "remaining P_begin = 7"
| "remaining P_select = 6"
| "remaining (P_update row) = 5"
| "remaining (P_commit row) = 4"
| "remaining (P_del row) = 3"
| "remaining (P_rollback resp) = 2"
| "remaining P_catch = 1"
| "remaining (P_done resp) = 0"

definition weight :: "conf \<Rightarrow> nat" where
  "weight c = sum_list (map (\<lambda>p. remaining (fst p)) (fst c))"

text \<open>The client has committed the consumption.\<close>

fun winner :: "pc \<Rightarrow> bool" where
  "winner (P_del row) = True"
| "winner (P_done resp) = status_200 resp"
| "winner _ = False"

text \<open>The client found the row unconsumed under the lock (and, later, is served the key).\<close>

fun on_win_path :: "pc \<Rightarrow> bool" where
  "on_win_path (P_update row) = True"
| "on_win_path (P_commit row) = True"
| "on_win_path (P_del row) = True"
| "on_win_path (P_done resp) = status_200 resp"
| "on_win_path _ = False"

text \<open>
  The invariant of concurrent fault-free requests for one link \<open>L\<close> with key \<open>k0\<close>, whose
  row at the moment is \<open>r\<close>: what each program counter says about the row and the lock.
\<close>

fun client_ok ::
  "uuid \<Rightarrow> string \<Rightarrow> key_request \<times> key_env \<Rightarrow> nat \<Rightarrow> issued_row \<Rightarrow> world \<Rightarrow> pending \<Rightarrow> pc \<Rightarrow> bool" where
  "client_ok L k0 c i r w ws P_connect = (ws = [])"
| "client_ok L k0 c i r w ws P_begin = (ws = [])"
| "client_ok L k0 c i r w ws P_select = (ws = [])"
| "client_ok L k0 c i r w ws (P_rollback resp) =
     (resp = already_claimed \<and> used r \<and> w_locks w L = Some i \<and> ws = [])"
| "client_ok L k0 c i r w ws (P_update row) =
     (issued_key_text row = k0 \<and> \<not> used r \<and> w_locks w L = Some i \<and> ws = [])"
| "client_ok L k0 c i r w ws (P_commit row) =
     (issued_key_text row = k0 \<and> \<not> used r \<and> w_locks w L = Some i
      \<and> ws = [(L, key_now (snd c), clientIp (fst c), ua (fst c))])"
| "client_ok L k0 c i r w ws (P_del row) = (issued_key_text row = k0 \<and> used r)"
| "client_ok L k0 c i r w ws P_catch = False"
| "client_ok L k0 c i r w ws (P_done resp) =
     (used r \<and> (resp = serve_key k0 \<or> resp = already_claimed))"

definition clients_ok ::
  "(key_request \<times> key_env) list \<Rightarrow> uuid \<Rightarrow> string \<Rightarrow> (pc \<times> pending) list \<Rightarrow> world \<Rightarrow> issued_row \<Rightarrow> bool" where
  "clients_ok cl L k0 ps w r =
     (\<forall>i<length cl. client_ok L k0 (cl ! i) i r w (snd (ps ! i)) (fst (ps ! i)))"

definition locks_ok :: "nat \<Rightarrow> uuid \<Rightarrow> (pc \<times> pending) list \<Rightarrow> world \<Rightarrow> bool" where
  "locks_ok n L ps w = (\<forall>p j. w_locks w p = Some j \<longrightarrow> p = L \<and> j < n \<and> in_cs (fst (ps ! j)))"

definition winners_ok :: "nat \<Rightarrow> (pc \<times> pending) list \<Rightarrow> issued_row \<Rightarrow> bool" where
  "winners_ok n ps r =
     (if used r
      then (\<exists>i<n. winner (fst (ps ! i)) \<and> (\<forall>j<n. winner (fst (ps ! j)) \<longrightarrow> j = i))
      else (\<forall>i<n. \<not> winner (fst (ps ! i))))"

definition conc_inv :: "(key_request \<times> key_env) list \<Rightarrow> uuid \<Rightarrow> string \<Rightarrow> conf \<Rightarrow> bool" where
  "conc_inv cl L k0 c =
     (length (fst c) = length cl \<and>
      (\<exists>r. row_at (w_store (snd c)) L = Some r \<and> issued_key_text r = k0 \<and>
         clients_ok cl L k0 (fst c) (snd c) r \<and> locks_ok (length cl) L (fst c) (snd c) \<and>
         winners_ok (length cl) (fst c) r))"

definition same_link :: "(key_request \<times> key_env) list \<Rightarrow> uuid \<Rightarrow> bool" where
  "same_link cl L = (\<forall>c \<in> set cl. uuid_in (params_pageId (fst c)) = Some L \<and> no_key_faults (snd c))"

section \<open>Example values\<close>

definition cfg0 :: config where
  "cfg0 = \<lparr>KEY_SET = ''unused_keys'', CLAIM_TTL_SECONDS = 600, ADMIN_TOKEN = Some ''secret''\<rparr>"

definition store0 :: store where
  "store0 = \<lparr>key_set = [], redis_kv = Map.empty, keys = [], issued_pages = []\<rparr>"

definition row0 :: issued_row where
  "row0 = \<lparr>issued_key_text = ''K1'', created_at = 7, used = False, used_at = None,
            ip = None, user_agent = None\<rparr>"

text \<open>
  A link as \<^verbatim>\<open>uuidv4()\<close> writes it, the uuid it names, another text of the same uuid,
  and a text that is no uuid.
\<close>

definition link1 :: string where
  "link1 = ''3f2b8c1e-5d4a-4e6b-9c7d-0a1b2c3d4e5f''"

definition id1 :: uuid where
  "id1 = ''3f2b8c1e5d4a4e6b9c7d0a1b2c3d4e5f''"

definition link1_upper :: string where
  "link1_upper = ''{3F2B8C1E-5D4A-4E6B-9C7D-0A1B2C3D4E5F}''"

definition no_link :: string where
  "no_link = ''does-not-exist''"

text \<open>One issued, unconsumed link \<open>link1\<close> bound to \<^verbatim>\<open>K1\<close>, with its marker.\<close>

definition store1 :: store where
  "store1 = store0\<lparr>redis_kv := [''page_ttl:'' @ link1 \<mapsto> (600, ''1'')],
                   issued_pages := [(id1, row0)]\<rparr>"

text \<open>A catalog of four keys, one deprecated and one with no flag, and a pool holding one of them.\<close>

definition store2 :: store where
  "store2 = store0\<lparr>key_set := [''K2''],
     keys := [\<lparr>key_text = ''K1'', deprecated = Some False\<rparr>,
              \<lparr>key_text = ''K2'', deprecated = Some False\<rparr>,
              \<lparr>key_text = ''K3'', deprecated = Some True\<rparr>,
              \<lparr>key_text = ''K4'', deprecated = None\<rparr>]\<rparr>"

definition claim_env0 :: claim_env where
  "claim_env0 = \<lparr>sPop_fails = False, rnd = 0, uuid = link1, now = 7, insert_fails = False,
                  setEx_fails = False\<rparr>"

definition key_env0 :: key_env where
  "key_env0 = \<lparr>connect_fails = False, begin_fails = False, select_fails = False,
     rollback_fails = False, update_fails = False, commit_fails = False, del_fails = False,
     key_now = 9\<rparr>"

definition key_req0 :: key_request where
  "key_req0 = \<lparr>params_pageId = link1, req_ip = Some ''10.0.0.1'', remoteAddress = None,
     header_user_agent = Some ''curl''\<rparr>"

definition admin_req0 :: admin_request where
  "admin_req0 = \<lparr>header_x_admin_token = Some ''secret'', body_token = JUndefined\<rparr>"

definition seed_env0 :: seed_env where
  "seed_env0 = \<lparr>select_keys_fails = False, exec_fails = False\<rparr>"

text \<open>
  Two clients asking for the same link, the second by another text of its uuid, and an
  interleaving of their store calls.
\<close>

definition key_req1 :: key_request where
  "key_req1 = \<lparr>params_pageId = link1_upper, req_ip = Some ''10.0.0.2'', remoteAddress = None,
     header_user_agent = None\<rparr>"

definition clients0 :: "(key_request \<times> key_env) list" where
  "clients0 = [(key_req0, key_env0), (key_req1, key_env0)]"

definition sched0 :: "nat list" where
  "sched0 = [0, 0, 0, Suc 0, Suc 0, 0, 0, Suc 0, Suc 0, 0]"

section \<open>Basic facts\<close>

lemmas claim_defs = claim_def redis_sPop_def pg_insert_issued_def redis_setEx_def popped_def
  row_of_def row_at_def Let_def

lemmas get_key_defs = get_key_def pg_connect_def pg_begin_def pg_select_for_update_def
  pg_rollback_def pg_update_used_def pg_commit_def redis_del_def row_of_def row_at_def Let_def

lemmas response_defs = no_keys_available_def server_error_def invalid_link_def
  already_claimed_def serve_key_def unauthorized_def

lemmas example_defs = cfg0_def store0_def store1_def store2_def claim_env0_def key_env0_def
  key_req0_def key_req1_def row0_def admin_req0_def seed_env0_def

lemma uuid_in_link1: "uuid_in link1 = Some id1"
  by code_simp

lemma uuid_in_link1_upper: "uuid_in link1_upper = Some id1"
  by code_simp

lemma uuid_in_no_link: "uuid_in no_link = None"
  by code_simp

lemmas uuid_examples = uuid_in_link1 uuid_in_link1_upper uuid_in_no_link

lemma row_of_same_uuid: "uuid_in a = uuid_in b \<Longrightarrow> row_of s a = row_of s b"
  by (simp add: row_of_def)

lemma consumed_same_uuid: "uuid_in a = uuid_in b \<Longrightarrow> consumed s a = consumed s b"
  by (simp add: consumed_def row_of_def)

lemma redis_sAdd_set: "set (redis_sAdd k ks) = insert k (set ks)"
  by (auto simp: redis_sAdd_def)

lemma escapeChar_inj: "escapeChar x @ xs = escapeChar y @ ys \<Longrightarrow> x = y \<and> xs = ys"
  by (auto split: if_splits)

lemma escapeHtml_inj: "escapeHtml a = escapeHtml b \<Longrightarrow> a = b"
proof (induction a arbitrary: b)
  case Nil
  then show ?case by (cases b) (auto simp: escapeHtml_def split: if_splits)
next
  case (Cons x xs)
  show ?case
  proof (cases b)
    case Nil
    with Cons.prems show ?thesis by (auto simp: escapeHtml_def split: if_splits)
  next
    case (Cons y ys)
    with Cons.prems have "escapeChar x @ escapeHtml xs = escapeChar y @ escapeHtml ys"
      by (simp add: escapeHtml_def)
    from escapeChar_inj [OF this] Cons.IH Cons show ?thesis by simp
  qed
qed

lemma serve_key_inj: "serve_key a = serve_key b \<Longrightarrow> a = b"
  by (simp add: serve_key_def key_page_def escapeHtml_inj)

lemma escapeHtml_plain: "plain k \<Longrightarrow> escapeHtml k = k"
  by (induction k) (auto simp: plain_def escapeHtml_def)

lemma serve_key_plain:
  "plain k \<Longrightarrow>
     serve_key k =
       Send 200 [(''Cache-Control'', ''no-store, no-cache, must-revalidate, private'')]
            (''<html><head><meta name='' @ [CHR 0x22] @ ''robots'' @ [CHR 0x22] @
             '' content='' @ [CHR 0x22] @ ''noindex'' @ [CHR 0x22] @
             ''></head><body><h1>Your Key</h1><p style='' @ [CHR 0x22] @
             ''font-family:monospace;font-size:18px;'' @ [CHR 0x22] @ ''>'' @
             k @
             ''</p><p>Do not share this link '' @ [CHR 0xE2, CHR 0x80, CHR 0x94] @
             '' it is single-use.</p></body></html>'')"
  by (simp add: serve_key_def key_page_def escapeHtml_plain)

lemma map_of_mark:
  "map_of (map (\<lambda>(i, r). if i = pid then (i, f r) else (i, r)) tx) j =
     (if j = pid then map_option f (map_of tx j) else map_of tx j)"
  by (induction tx) auto

lemma popped_in: "key_set s \<noteq> [] \<Longrightarrow> popped env s \<in> set (key_set s)"
  by (simp add: popped_def)

lemma run_steps:
  "fst (run cfg rs s) = map (\<lambda>(a, rq, resp, b). resp) (steps cfg rs s)"
  by (induction rs arbitrary: s) (simp_all add: Let_def split_beta)

lemma claim_row:
  "row_of s pid = Some r \<Longrightarrow> row_of (snd (claim cfg env s)) pid = Some r"
  by (auto simp: claim_defs Let_def map_add_def split: option.splits)

lemma get_key_row:
  "row_of s pid = Some r \<Longrightarrow>
     \<exists>r'. row_of (snd (get_key req env s)) pid = Some r'
        \<and> issued_key_text r' = issued_key_text r \<and> (used r \<longrightarrow> used r')"
  by (auto simp: get_key_defs Let_def map_of_mark mark_used_def
      split: option.splits list.splits sum.splits if_splits)

lemma admin_seed_redis_issued_pages:
  "issued_pages (snd (admin_seed_redis cfg req env s)) = issued_pages s"
  by (auto simp: admin_seed_redis_def pg_select_keys_def redis_multi_sAdd_exec_def Let_def)

lemma admin_issued_store: "snd (admin_issued cfg req qf s) = s"
  by (auto simp: admin_issued_def pg_select_recent_def Let_def)

lemma handle_row:
  assumes "row_of s pid = Some r"
  shows "\<exists>r'. row_of (snd (handle cfg rq s)) pid = Some r'
        \<and> issued_key_text r' = issued_key_text r \<and> (used r \<longrightarrow> used r')"
proof (cases rq)
  case (Claim env)
  then show ?thesis using claim_row [OF assms] by simp
next
  case (Key req env)
  then show ?thesis using get_key_row [OF assms] by simp
next
  case (SeedRedis req env)
  then show ?thesis using assms admin_seed_redis_issued_pages [of cfg req env s]
    by (auto simp: row_of_def row_at_def split: option.splits)
next
  case (Issued req qf)
  then show ?thesis using assms by (simp add: admin_issued_store)
qed

lemma run_row:
  "row_of s pid = Some r \<Longrightarrow>
     \<exists>r'. row_of (snd (run cfg rs s)) pid = Some r'
        \<and> issued_key_text r' = issued_key_text r \<and> (used r \<longrightarrow> used r')"
proof (induction rs arbitrary: s r)
  case Nil
  then show ?case by simp
next
  case (Cons rq rs)
  from handle_row [OF Cons.prems, of cfg rq]
  obtain r1 where r1: "row_of (snd (handle cfg rq s)) pid = Some r1"
    "issued_key_text r1 = issued_key_text r" "used r \<longrightarrow> used r1" by blast
  from Cons.IH [OF r1(1)] r1(2,3) show ?case
    by (auto simp: Let_def split: prod.splits)
qed

lemma handle_consumed: "consumed s pid \<Longrightarrow> consumed (snd (handle cfg rq s)) pid"
  using handle_row [of s pid _ cfg rq]
  by (auto simp: consumed_def split: option.splits)

lemma get_key_200:
  assumes "status_200 (fst (get_key req env s))"
  shows "\<exists>r. row_of s (params_pageId req) = Some r \<and> \<not> used r
           \<and> fst (get_key req env s) = serve_key (issued_key_text r)
           \<and> consumed (snd (get_key req env s)) (params_pageId req)"
  using assms
  by (auto simp: get_key_defs Let_def map_of_mark mark_used_def response_defs consumed_def
      split: option.splits list.splits sum.splits if_splits)

lemma steps_member:
  "(a, rq, resp, b) \<in> set (steps cfg rs s) \<Longrightarrow> handle cfg rq a = (resp, b)"
  by (induction rs arbitrary: s) auto

lemma delivers_flips:
  assumes "st \<in> set (steps cfg rs s)" and "delivers pid st"
  shows "flips pid st \<and>
     (\<exists>r. row_of (fst st) pid = Some r \<and> fst (snd (snd st)) = serve_key (issued_key_text r))"
proof -
  obtain a rq resp b where st: "st = (a, rq, resp, b)" by (cases st) auto
  with assms(2) obtain req env where rq: "rq = Key req env"
    "uuid_in (params_pageId req) = uuid_in pid" "status_200 resp" by (cases rq) auto
  from steps_member assms(1) st rq have h: "get_key req env a = (resp, b)" by fastforce
  with get_key_200 [of req env a] rq(3) obtain r where
    r: "row_of a (params_pageId req) = Some r" "\<not> used r" "resp = serve_key (issued_key_text r)"
    "consumed b (params_pageId req)" by auto
  from r(1,2) have "\<not> consumed a (params_pageId req)" by (simp add: consumed_def)
  with r show ?thesis
    unfolding st row_of_same_uuid [OF rq(2)] consumed_same_uuid [OF rq(2)] by simp
qed

lemma no_flips_after_consumed:
  "consumed s pid \<Longrightarrow> filter (flips pid) (steps cfg rs s) = []"
proof (induction rs arbitrary: s)
  case Nil
  then show ?case by simp
next
  case (Cons rq rs)
  then show ?case using handle_consumed [of s pid cfg rq]
    by (cases "handle cfg rq s") auto
qed

lemma flips_at_most_once: "length (filter (flips pid) (steps cfg rs s)) \<le> 1"
proof (induction rs arbitrary: s)
  case Nil
  then show ?case by simp
next
  case (Cons rq rs)
  show ?case
  proof (cases "consumed (snd (handle cfg rq s)) pid")
    case True
    then show ?thesis using no_flips_after_consumed [of "snd (handle cfg rq s)" pid cfg rs]
      by (cases "handle cfg rq s") auto
  next
    case False
    then show ?thesis using Cons.IH [of "snd (handle cfg rq s)"]
      by (cases "handle cfg rq s") auto
  qed
qed

lemma filter_length_mono:
  "(\<And>x. x \<in> set xs \<Longrightarrow> P x \<Longrightarrow> Q x) \<Longrightarrow> length (filter P xs) \<le> length (filter Q xs)"
  by (induction xs) auto

section \<open>An issued link is consumed once\<close>

text \<open>
  Claim C1. Take any store, any list of requests (claims, key requests, refills and
  inspections, with any faults and any random choices) served one after the other, and any
  link id \<open>pid\<close>.
  \<^item> A row that exists stays, keeps its key, and once \<open>used\<close> it stays \<open>used\<close>, whatever
    is served afterwards.
  \<^item> At most one step of the run takes the row from unconsumed to consumed.
  \<^item> A step that delivers the key for \<open>pid\<close> (a key request answered 200 whose page
    id is \<open>pid\<close> or another text of the same uuid) is such a step, and what it sends is
    the page of the key bound to the row.
  \<^item> Hence at most one step of the run delivers the key for \<open>pid\<close>.
\<close>

theorem consumed_once:
  "(\<forall>r. row_of s pid = Some r \<longrightarrow>
      (\<exists>r'. row_of (snd (run cfg rs s)) pid = Some r'
          \<and> issued_key_text r' = issued_key_text r \<and> (used r \<longrightarrow> used r')))
   \<and> length (filter (flips pid) (steps cfg rs s)) \<le> 1
   \<and> (\<forall>st \<in> set (steps cfg rs s). delivers pid st \<longrightarrow>
        flips pid st
        \<and> (\<exists>r. row_of (fst st) pid = Some r \<and> fst (snd (snd st)) = serve_key (issued_key_text r)))
   \<and> length (filter (delivers pid) (steps cfg rs s)) \<le> 1"
proof -
  have a: "\<forall>r. row_of s pid = Some r \<longrightarrow>
      (\<exists>r'. row_of (snd (run cfg rs s)) pid = Some r'
          \<and> issued_key_text r' = issued_key_text r \<and> (used r \<longrightarrow> used r'))"
    using run_row by blast
  have b: "length (filter (flips pid) (steps cfg rs s)) \<le> 1"
    by (rule flips_at_most_once)
  have c: "\<forall>st \<in> set (steps cfg rs s). delivers pid st \<longrightarrow>
        flips pid st
        \<and> (\<exists>r. row_of (fst st) pid = Some r \<and> fst (snd (snd st)) = serve_key (issued_key_text r))"
    using delivers_flips by blast
  have "length (filter (delivers pid) (steps cfg rs s)) \<le> length (filter (flips pid) (steps cfg rs s))"
    by (rule filter_length_mono) (use delivers_flips in blast)
  with b have d: "length (filter (delivers pid) (steps cfg rs s)) \<le> 1" by linarith
  from a b c d show ?thesis by blast
qed

theorem consumed_once_witness:
  "row_of store1 link1 = Some row0
   \<and> fst (run cfg0 [Key key_req0 key_env0, Key key_req1 key_env0] store1) =
        [serve_key ''K1'', already_claimed]
   \<and> length (filter (delivers link1)
          (steps cfg0 [Key key_req0 key_env0, Key key_req1 key_env0] store1)) = 1
   \<and> length (filter (flips link1)
          (steps cfg0 [Key key_req0 key_env0, Key key_req1 key_env0] store1)) = 1"
  using consumed_once [of store1 link1 cfg0 "[Key key_req0 key_env0, Key key_req1 key_env0]"]
  by (simp add: get_key_defs example_defs uuid_examples mark_used_def clientIp_def ua_def
      consumed_def response_defs)

section \<open>Concurrent key requests: the invariant\<close>

lemma client_step_remaining:
  "client_step i req env p w = Some (p', w') \<Longrightarrow> remaining (fst p') < remaining (fst p)"
  by (cases "(i, req, env, p, w)" rule: client_step.cases)
     (auto split: if_splits option.splits)

lemma conc_invI:
  "length ps = length cl \<Longrightarrow> row_at (w_store w) L = Some r \<Longrightarrow> issued_key_text r = k0 \<Longrightarrow>
   clients_ok cl L k0 ps w r \<Longrightarrow> locks_ok (length cl) L ps w \<Longrightarrow> winners_ok (length cl) ps r \<Longrightarrow>
   conc_inv cl L k0 (ps, w)"
  by (auto simp: conc_inv_def)

lemma conc_invE:
  assumes "conc_inv cl L k0 (ps, w)"
  obtains r where "length ps = length cl" and "row_at (w_store w) L = Some r"
    and "issued_key_text r = k0" and "clients_ok cl L k0 ps w r"
    and "locks_ok (length cl) L ps w" and "winners_ok (length cl) ps r"
  using assms by (auto simp: conc_inv_def)

lemma conc_inv_start:
  assumes "row_at s L = Some r" and "\<not> used r"
  shows "conc_inv cl L (issued_key_text r) (start (length cl) s)"
  using assms by (auto simp: conc_inv_def start_def clients_ok_def locks_ok_def winners_ok_def)

lemma winner_update_same:
  assumes "i < length ps" and "winner (fst (ps ! i)) = winner pc'"
  shows "winner (fst (ps[i := (pc', ws')] ! j)) = winner (fst (ps ! j))"
  using assms by (cases "j = i") (auto simp: nth_list_update)

lemma winners_ok_same:
  assumes "i < length ps" and "winner (fst (ps ! i)) = winner pc'" and "used r' = used r"
  shows "winners_ok n (ps[i := (pc', ws')]) r' = winners_ok n ps r"
  unfolding winners_ok_def by (simp add: winner_update_same [OF assms(1,2)] assms(3))

lemma client_ok_no_cs:
  "\<not> in_cs pc \<Longrightarrow> client_ok L k0 c i r w' ws pc = client_ok L k0 c i r w ws pc"
  by (cases pc) auto

lemma client_ok_lock:
  "w_locks w' L = w_locks w L \<Longrightarrow> client_ok L k0 c i r w' ws pc = client_ok L k0 c i r w ws pc"
  by (cases pc) auto

lemma client_ok_in_cs:
  "client_ok L k0 c i r w ws pc \<Longrightarrow> in_cs pc \<Longrightarrow> w_locks w L = Some i"
  by (cases pc) auto

lemma inv_local:
  assumes inv: "conc_inv cl L k0 (ps, w)" and i: "i < length cl"
    and cs: "in_cs pc' = in_cs (fst (ps ! i))" and win: "winner (fst (ps ! i)) = winner pc'"
    and w': "w_locks w' = w_locks w" "issued_pages (w_store w') = issued_pages (w_store w)"
    and new: "\<And>r. client_ok L k0 (cl ! i) i r w (snd (ps ! i)) (fst (ps ! i)) \<Longrightarrow>
                 client_ok L k0 (cl ! i) i r w ws' pc'"
  shows "conc_inv cl L k0 (ps[i := (pc', ws')], w')"
proof -
  from inv obtain r where n: "length ps = length cl"
    and r: "row_at (w_store w) L = Some r" "issued_key_text r = k0"
    and ok: "clients_ok cl L k0 ps w r"
    and lk: "locks_ok (length cl) L ps w"
    and wn: "winners_ok (length cl) ps r"
    by (rule conc_invE)
  have ok': "clients_ok cl L k0 (ps[i := (pc', ws')]) w' r"
    using ok new i n client_ok_lock [of w' L w] w'(1)
    by (auto simp: clients_ok_def nth_list_update)
  have lk': "locks_ok (length cl) L (ps[i := (pc', ws')]) w'"
    using lk cs i n w'(1) by (auto simp: locks_ok_def nth_list_update)
  have wn': "winners_ok (length cl) (ps[i := (pc', ws')]) r"
    using wn winners_ok_same [of i ps pc' r r "length cl" ws'] i n win by simp
  show ?thesis
    by (rule conc_invI) (use n r ok' lk' wn' w'(2) in \<open>auto simp: row_at_def\<close>)
qed

lemma others_outside:
  assumes ok: "clients_ok cl L k0 ps w r" and lock: "w_locks w L \<noteq> Some j" and j: "j < length cl"
  shows "\<not> in_cs (fst (ps ! j))"
  using ok lock j client_ok_in_cs [of L k0 "cl ! j" j r w "snd (ps ! j)" "fst (ps ! j)"]
  by (auto simp: clients_ok_def)

lemma inv_select:
  assumes inv: "conc_inv cl L k0 (ps, w)" and i: "i < length cl"
    and pc: "ps ! i = (P_select, ws)"
    and free: "w_locks w L = None \<or> w_locks w L = Some i"
    and row: "row_at (w_store w) L = Some row"
  shows "conc_inv cl L k0
     (ps[i := (if used row then P_rollback already_claimed else P_update row, ws)],
      w\<lparr>w_locks := (w_locks w)(L \<mapsto> i)\<rparr>)"
proof -
  let ?pc' = "if used row then P_rollback already_claimed else P_update row"
  let ?ps' = "ps[i := (?pc', ws)]" and ?w' = "w\<lparr>w_locks := (w_locks w)(L \<mapsto> i)\<rparr>"
  from inv obtain r where n: "length ps = length cl"
    and r: "row_at (w_store w) L = Some r" "issued_key_text r = k0"
    and ok: "clients_ok cl L k0 ps w r"
    and lk: "locks_ok (length cl) L ps w"
    and wn: "winners_ok (length cl) ps r"
    by (rule conc_invE)
  from r row have rr: "row = r" by simp
  have "w_locks w L \<noteq> Some i"
  proof
    assume "w_locks w L = Some i"
    with lk have "in_cs (fst (ps ! i))" unfolding locks_ok_def by blast
    with pc show False by simp
  qed
  with free have none: "w_locks w L = None" by simp
  from ok i pc have ws: "ws = []" by (auto simp: clients_ok_def)
  have out: "\<not> in_cs (fst (ps ! j))" if "j < length cl" for j
    using others_outside [OF ok _ that] none by simp
  have ok': "clients_ok cl L k0 ?ps' ?w' r"
    unfolding clients_ok_def
  proof (intro allI impI)
    fix j assume j: "j < length cl"
    show "client_ok L k0 (cl ! j) j r ?w' (snd (?ps' ! j)) (fst (?ps' ! j))"
    proof (cases "j = i")
      case True
      then show ?thesis using i n r rr ws by simp
    next
      case False
      then show ?thesis
        using ok j client_ok_no_cs [OF out [OF j], of L k0 "cl ! j" j r ?w' "snd (ps ! j)" w]
        by (simp add: clients_ok_def)
    qed
  qed
  have lk': "locks_ok (length cl) L ?ps' ?w'"
    using lk i n by (auto simp: locks_ok_def nth_list_update split: if_splits)
  have wn': "winners_ok (length cl) ?ps' r"
    using wn winners_ok_same [of i ps ?pc' r r "length cl" ws] i n pc by simp
  show ?thesis
    by (rule conc_invI) (use n r ok' lk' wn' in \<open>auto simp: row_at_def\<close>)
qed

lemma inv_rollback:
  assumes inv: "conc_inv cl L k0 (ps, w)" and i: "i < length cl"
    and pc: "ps ! i = (P_rollback resp, ws)"
  shows "conc_inv cl L k0 (ps[i := (P_done resp, [])], w\<lparr>w_locks := release i (w_locks w)\<rparr>)"
proof -
  let ?ps' = "ps[i := (P_done resp, [])]" and ?w' = "w\<lparr>w_locks := release i (w_locks w)\<rparr>"
  from inv obtain r where n: "length ps = length cl"
    and r: "row_at (w_store w) L = Some r" "issued_key_text r = k0"
    and ok: "clients_ok cl L k0 ps w r"
    and lk: "locks_ok (length cl) L ps w"
    and wn: "winners_ok (length cl) ps r"
    by (rule conc_invE)
  from ok i pc have me: "resp = already_claimed" "used r" "w_locks w L = Some i"
    by (auto simp: clients_ok_def)
  have out: "\<not> in_cs (fst (ps ! j))" if "j < length cl" "j \<noteq> i" for j
    using others_outside [OF ok _ that(1)] me(3) that(2) by simp
  have ok': "clients_ok cl L k0 ?ps' ?w' r"
    unfolding clients_ok_def
  proof (intro allI impI)
    fix j assume j: "j < length cl"
    show "client_ok L k0 (cl ! j) j r ?w' (snd (?ps' ! j)) (fst (?ps' ! j))"
    proof (cases "j = i")
      case True
      then show ?thesis using i n me by simp
    next
      case False
      then show ?thesis
        using ok j client_ok_no_cs [OF out [OF j False], of L k0 "cl ! j" j r ?w' "snd (ps ! j)" w]
        by (simp add: clients_ok_def)
    qed
  qed
  have lk': "locks_ok (length cl) L ?ps' ?w'"
    using lk i n by (auto simp: locks_ok_def release_def nth_list_update split: if_splits)
  have wn': "winners_ok (length cl) ?ps' r"
    using wn winners_ok_same [of i ps "P_done resp" r r "length cl" "[]"] i n pc me(1)
    by (simp add: already_claimed_def)
  show ?thesis
    by (rule conc_invI) (use n r ok' lk' wn' in \<open>auto simp: row_at_def\<close>)
qed

lemma inv_commit:
  assumes inv: "conc_inv cl L k0 (ps, w)" and i: "i < length cl"
    and pc: "ps ! i = (P_commit row, ws)"
  shows "conc_inv cl L k0
     (ps[i := (P_del row, [])],
      w\<lparr>w_store := (w_store w)\<lparr>issued_pages := apply_pending ws (issued_pages (w_store w))\<rparr>,
        w_locks := release i (w_locks w)\<rparr>)"
proof -
  let ?ps' = "ps[i := (P_del row, [])]"
  let ?w' = "w\<lparr>w_store := (w_store w)\<lparr>issued_pages := apply_pending ws (issued_pages (w_store w))\<rparr>,
        w_locks := release i (w_locks w)\<rparr>"
  from inv obtain r where n: "length ps = length cl"
    and r: "row_at (w_store w) L = Some r" "issued_key_text r = k0"
    and ok: "clients_ok cl L k0 ps w r"
    and lk: "locks_ok (length cl) L ps w"
    and wn: "winners_ok (length cl) ps r"
    by (rule conc_invE)
  from ok i pc have me: "issued_key_text row = k0" "\<not> used r" "w_locks w L = Some i"
    "ws = [(L, key_now (snd (cl ! i)), clientIp (fst (cl ! i)), ua (fst (cl ! i)))]"
    by (auto simp: clients_ok_def)
  let ?r' = "mark_used (key_now (snd (cl ! i))) (clientIp (fst (cl ! i))) (ua (fst (cl ! i))) r"
  have r': "row_at (w_store ?w') L = Some ?r'" "issued_key_text ?r' = k0" "used ?r'"
    using r me(4) by (simp_all add: row_at_def map_of_mark mark_used_def)
  have out: "\<not> in_cs (fst (ps ! j))" if "j < length cl" "j \<noteq> i" for j
    using others_outside [OF ok _ that(1)] me(3) that(2) by simp
  have early: "fst (ps ! j) \<in> {P_connect, P_begin, P_select} \<and> snd (ps ! j) = []"
    if j: "j < length cl" "j \<noteq> i" for j
    using ok j me(2) out [OF j] by (cases "fst (ps ! j)") (auto simp: clients_ok_def)
  have ok': "clients_ok cl L k0 ?ps' ?w' ?r'"
    unfolding clients_ok_def
  proof (intro allI impI)
    fix j assume j: "j < length cl"
    show "client_ok L k0 (cl ! j) j ?r' ?w' (snd (?ps' ! j)) (fst (?ps' ! j))"
    proof (cases "j = i")
      case True
      then show ?thesis using i n me r' by simp
    next
      case False
      then show ?thesis using early [OF j False] by auto
    qed
  qed
  have lk': "locks_ok (length cl) L ?ps' ?w'"
    using lk i n by (auto simp: locks_ok_def release_def nth_list_update split: if_splits)
  have nowin: "\<not> winner (fst (ps ! j))" if "j < length cl" for j
    using wn me(2) that by (simp add: winners_ok_def)
  have wn': "winners_ok (length cl) ?ps' ?r'"
    unfolding winners_ok_def using r'(3) i n nowin
    by (auto simp: nth_list_update intro!: exI [of _ i])
  show ?thesis
    by (rule conc_invI) (use n r' ok' lk' wn' in auto)
qed

lemma conc_inv_step:
  assumes good: "same_link cl L" and inv: "conc_inv cl L k0 c" and step: "conc_step cl i c = Some c'"
  shows "conc_inv cl L k0 c'"
proof -
  obtain ps w where c: "c = (ps, w)" by (cases c)
  from step have i: "i < length cl" "i < length ps"
    by (auto simp: conc_step_def c split: if_splits)
  obtain pc ws where p: "ps ! i = (pc, ws)" by (cases "ps ! i")
  from good i have L: "uuid_in (params_pageId (fst (cl ! i))) = Some L"
    and nf: "no_key_faults (snd (cl ! i))"
    by (auto simp: same_link_def)
  from inv c obtain r where n: "length ps = length cl"
    and r: "row_at (w_store w) L = Some r"
    and ok: "clients_ok cl L k0 ps w r"
    by (auto elim: conc_invE)
  from ok i p have okp: "client_ok L k0 (cl ! i) i r w ws pc" by (auto simp: clients_ok_def)
  from step have st: "client_step i (fst (cl ! i)) (snd (cl ! i)) (pc, ws) w \<noteq> None"
    "c' = (ps[i := fst (the (client_step i (fst (cl ! i)) (snd (cl ! i)) (pc, ws) w))],
           snd (the (client_step i (fst (cl ! i)) (snd (cl ! i)) (pc, ws) w)))"
    using i p by (auto simp: conc_step_def c split: option.splits)
  show ?thesis
  proof (cases pc)
    case P_connect
    then show ?thesis unfolding st(2) using nf inv_local [OF inv [unfolded c] i(1), of P_begin w ws] p
      by (simp add: no_key_faults_def)
  next
    case P_begin
    then show ?thesis unfolding st(2) using nf inv_local [OF inv [unfolded c] i(1), of P_select w ws] p
      by (simp add: no_key_faults_def)
  next
    case P_select
    then show ?thesis unfolding st(2)
      using nf st(1) inv_select [OF inv [unfolded c] i(1) p [unfolded P_select] _ r] r L
      by (auto simp: no_key_faults_def row_at_def split: if_splits)
  next
    case (P_rollback resp)
    then show ?thesis unfolding st(2)
      using nf inv_rollback [OF inv [unfolded c] i(1) p [unfolded P_rollback]]
      by (simp add: no_key_faults_def)
  next
    case (P_update row)
    then show ?thesis unfolding st(2)
      using nf L okp p
        inv_local [OF inv [unfolded c] i(1), of "P_commit row" w
          "ws @ [(L, key_now (snd (cl ! i)), clientIp (fst (cl ! i)), ua (fst (cl ! i)))]"]
      by (simp add: no_key_faults_def)
  next
    case (P_commit row)
    then show ?thesis unfolding st(2)
      using nf inv_commit [OF inv [unfolded c] i(1) p [unfolded P_commit]]
      by (simp add: no_key_faults_def)
  next
    case (P_del row)
    then show ?thesis unfolding st(2)
      using nf L okp p
        inv_local [OF inv [unfolded c] i(1), of "P_done (serve_key (issued_key_text row))"
          "w\<lparr>w_store := (w_store w)\<lparr>redis_kv := (redis_kv (w_store w))
              (''page_ttl:'' @ params_pageId (fst (cl ! i)) := None)\<rparr>\<rparr>" ws]
      by (simp add: no_key_faults_def serve_key_def)
  next
    case P_catch
    then show ?thesis using okp by simp
  next
    case (P_done resp)
    then show ?thesis using st(1) by simp
  qed
qed

lemma exec_inv:
  "same_link cl L \<Longrightarrow> conc_inv cl L k0 c \<Longrightarrow> exec cl sched c = Some c' \<Longrightarrow> conc_inv cl L k0 c'"
proof (induction sched arbitrary: c)
  case Nil
  then show ?case by simp
next
  case (Cons i sched)
  from Cons.prems(3) obtain c1 where c1: "conc_step cl i c = Some c1" "exec cl sched c1 = Some c'"
    by (auto split: option.splits)
  from conc_inv_step [OF Cons.prems(1,2) c1(1)] Cons.IH [OF Cons.prems(1) _ c1(2)]
  show ?case by simp
qed

lemma inv_mutex:
  assumes "conc_inv cl L k0 (ps, w)" and "i < length cl" and "j < length cl"
    and "in_cs (fst (ps ! i))" and "in_cs (fst (ps ! j))"
  shows "i = j"
proof -
  from assms(1) obtain r where ok: "clients_ok cl L k0 ps w r" by (rule conc_invE)
  from ok assms(2,4) have "w_locks w L = Some i"
    using client_ok_in_cs [of L k0 "cl ! i" i r w "snd (ps ! i)" "fst (ps ! i)"]
    by (simp add: clients_ok_def)
  moreover from ok assms(3,5) have "w_locks w L = Some j"
    using client_ok_in_cs [of L k0 "cl ! j" j r w "snd (ps ! j)" "fst (ps ! j)"]
    by (simp add: clients_ok_def)
  ultimately show ?thesis by simp
qed

lemma client_ok_done:
  assumes "client_ok L k0 c i r w ws pc" and "is_done pc"
  shows "used r \<and> (pc = P_done (serve_key k0) \<and> winner pc \<or> pc = P_done already_claimed \<and> \<not> winner pc)"
  using assms by (cases pc) (auto simp: serve_key_def already_claimed_def)

lemma inv_final:
  assumes inv: "conc_inv cl L k0 (ps, w)" and fin: "\<forall>i<length cl. is_done (fst (ps ! i))"
    and ne: "0 < length cl"
  shows "(\<exists>r. row_at (w_store w) L = Some r \<and> used r) \<and>
     (\<exists>i<length cl. fst (ps ! i) = P_done (serve_key k0) \<and>
        (\<forall>j<length cl. j \<noteq> i \<longrightarrow> fst (ps ! j) = P_done already_claimed))"
proof -
  from inv obtain r where r: "row_at (w_store w) L = Some r"
    and ok: "clients_ok cl L k0 ps w r" and wn: "winners_ok (length cl) ps r"
    by (rule conc_invE)
  have d: "used r \<and> (fst (ps ! j) = P_done (serve_key k0) \<and> winner (fst (ps ! j))
        \<or> fst (ps ! j) = P_done already_claimed \<and> \<not> winner (fst (ps ! j)))"
    if "j < length cl" for j
    using client_ok_done [of L k0 "cl ! j" j r w "snd (ps ! j)" "fst (ps ! j)"] ok fin that
    by (simp add: clients_ok_def)
  from d [OF ne] have u: "used r" by simp
  with wn obtain i where i: "i < length cl" "winner (fst (ps ! i))"
    "\<forall>j<length cl. winner (fst (ps ! j)) \<longrightarrow> j = i"
    by (auto simp: winners_ok_def)
  from d [OF i(1)] i(2) have "fst (ps ! i) = P_done (serve_key k0)" by auto
  moreover have "\<forall>j<length cl. j \<noteq> i \<longrightarrow> fst (ps ! j) = P_done already_claimed"
    using d i(3) by blast
  ultimately show ?thesis using r u i(1) by blast
qed

lemma client_step_enabled:
  assumes "\<not> is_done pc"
    and "pc = P_select \<longrightarrow>
           (\<forall>u. uuid_in (params_pageId req) = Some u \<longrightarrow> w_locks w u = None \<or> w_locks w u = Some i)"
  shows "client_step i req env (pc, ws) w \<noteq> None"
  using assms by (cases pc) (auto split: option.splits)

lemma inv_progress:
  assumes good: "same_link cl L" and inv: "conc_inv cl L k0 (ps, w)"
    and i: "i < length cl" "\<not> is_done (fst (ps ! i))"
  shows "\<exists>j<length cl. conc_step cl j (ps, w) \<noteq> None"
proof -
  from inv obtain r where n: "length ps = length cl"
    and lk: "locks_ok (length cl) L ps w" by (rule conc_invE)
  show ?thesis
  proof (cases "w_locks w L")
    case None
    have "client_step i (fst (cl ! i)) (snd (cl ! i)) (fst (ps ! i), snd (ps ! i)) w \<noteq> None"
      by (rule client_step_enabled) (use i good None in \<open>auto simp: same_link_def\<close>)
    then show ?thesis using i n by (auto simp: conc_step_def intro!: exI [of _ i])
  next
    case (Some j)
    with lk have j: "j < length cl" "in_cs (fst (ps ! j))" by (auto simp: locks_ok_def)
    have "client_step j (fst (cl ! j)) (snd (cl ! j)) (fst (ps ! j), snd (ps ! j)) w \<noteq> None"
      by (rule client_step_enabled) (use j in \<open>auto elim: in_cs.elims\<close>)
    then show ?thesis using j n by (auto simp: conc_step_def intro!: exI [of _ j])
  qed
qed

lemma sum_list_update_less:
  fixes f :: "'a \<Rightarrow> nat"
  assumes "i < length xs" and "f y < f (xs ! i)"
  shows "sum_list (map f (xs[i := y])) < sum_list (map f xs)"
  using assms
proof (induction xs arbitrary: i)
  case Nil
  then show ?case by simp
next
  case (Cons x xs)
  then show ?case by (cases i) auto
qed

lemma conc_step_weight: "conc_step cl i c = Some c' \<Longrightarrow> weight c' < weight c"
proof -
  assume step: "conc_step cl i c = Some c'"
  then obtain p' w' where i: "i < length (fst c)"
    and cs: "client_step i (fst (cl ! i)) (snd (cl ! i)) (fst c ! i) (snd c) = Some (p', w')"
    and c': "c' = ((fst c)[i := p'], w')"
    by (auto simp: conc_step_def split: if_splits option.splits)
  from client_step_remaining [OF cs] have "remaining (fst p') < remaining (fst (fst c ! i))" by simp
  with i show ?thesis
    unfolding weight_def c' using sum_list_update_less [of i "fst c" "\<lambda>p. remaining (fst p)" p']
    by simp
qed

lemma exec_weight: "exec cl sched c = Some c' \<Longrightarrow> weight c' + length sched \<le> weight c"
proof (induction sched arbitrary: c)
  case Nil
  then show ?case by simp
next
  case (Cons i sched)
  from Cons.prems obtain c1 where c1: "conc_step cl i c = Some c1" "exec cl sched c1 = Some c'"
    by (auto split: option.splits)
  from conc_step_weight [OF c1(1)] Cons.IH [OF c1(2)] show ?case by simp
qed

lemma client_step_win_path:
  assumes "no_key_faults env" and "uuid_in (params_pageId req) = Some L"
    and "client_step i req env (pc, ws) w = Some (p', w')" and "on_win_path pc"
  shows "on_win_path (fst p')"
  using assms by (cases pc) (auto simp: no_key_faults_def serve_key_def)

lemma conc_step_win_path:
  assumes good: "same_link cl L" and step: "conc_step cl i c = Some c'"
    and j: "j < length cl" "on_win_path (fst (fst c ! j))"
  shows "on_win_path (fst (fst c' ! j))"
proof -
  from step obtain p' w' where i: "i < length cl" "i < length (fst c)"
    and cs: "client_step i (fst (cl ! i)) (snd (cl ! i)) (fst c ! i) (snd c) = Some (p', w')"
    and c': "c' = ((fst c)[i := p'], w')"
    by (auto simp: conc_step_def split: if_splits option.splits)
  show ?thesis
  proof (cases "j = i")
    case True
    from good i have "no_key_faults (snd (cl ! i))" "uuid_in (params_pageId (fst (cl ! i))) = Some L"
      by (auto simp: same_link_def)
    from client_step_win_path [OF this, of i "fst (fst c ! i)" "snd (fst c ! i)" "snd c" p' w']
      cs j(2) True i show ?thesis by (simp add: c')
  next
    case False
    then show ?thesis using j(2) by (simp add: c')
  qed
qed

lemma exec_win_path:
  "same_link cl L \<Longrightarrow> exec cl sched c = Some c' \<Longrightarrow> j < length cl \<Longrightarrow>
     on_win_path (fst (fst c ! j)) \<Longrightarrow> on_win_path (fst (fst c' ! j))"
proof (induction sched arbitrary: c)
  case Nil
  then show ?case by simp
next
  case (Cons i sched)
  from Cons.prems(2) obtain c1 where c1: "conc_step cl i c = Some c1" "exec cl sched c1 = Some c'"
    by (auto split: option.splits)
  from conc_step_win_path [OF Cons.prems(1) c1(1) Cons.prems(3,4)]
    Cons.IH [OF Cons.prems(1) c1(2) Cons.prems(3)]
  show ?case by simp
qed

lemma solo_get_key:
  "solo 8 req env ((P_connect, []), \<lparr>w_store = s, w_locks = \<lambda>p. None\<rparr>) =
     ((P_done (fst (get_key req env s)), []),
      \<lparr>w_store = snd (get_key req env s), w_locks = \<lambda>p. None\<rparr>)"
  by (simp add: eval_nat_numeral get_key_defs release_def fun_eq_iff
      split: option.splits)

lemma list2: "length xs = 2 \<Longrightarrow> xs = [xs ! 0, xs ! 1]"
  by (cases xs; cases "tl xs") auto

lemma exec_completes:
  assumes good: "same_link cl L"
  shows "conc_inv cl L k0 c \<Longrightarrow>
     \<exists>sched c'. exec cl sched c = Some c' \<and> (\<forall>i<length cl. is_done (fst (fst c' ! i)))"
proof (induction "weight c" arbitrary: c rule: less_induct)
  case less
  show ?case
  proof (cases "\<forall>i<length cl. is_done (fst (fst c ! i))")
    case True
    then have "exec cl [] c = Some c \<and> (\<forall>i<length cl. is_done (fst (fst c ! i)))" by simp
    then show ?thesis by blast
  next
    case False
    then obtain i where i: "i < length cl" "\<not> is_done (fst (fst c ! i))" by blast
    obtain ps w where c: "c = (ps, w)" by (cases c)
    from i c have "\<not> is_done (fst (ps ! i))" by simp
    from inv_progress [OF good less.prems [unfolded c] i(1) this]
    obtain j where "conc_step cl j (ps, w) \<noteq> None" by blast
    with c obtain c1 where j: "conc_step cl j c = Some c1" by auto
    from conc_step_weight [OF j] have "weight c1 < weight c" .
    from less.hyps [OF this conc_inv_step [OF good less.prems j]]
    obtain sched c' where "exec cl sched c1 = Some c'" "\<forall>i<length cl. is_done (fst (fst c' ! i))"
      by blast
    with j have "exec cl (j # sched) c = Some c' \<and> (\<forall>i<length cl. is_done (fst (fst c' ! i)))"
      by simp
    then show ?thesis by blast
  qed
qed

text \<open>
  Claim C2. Two key requests for the same link (their page ids are texts of one uuid
  \<open>L\<close>), whose row is unconsumed, none of whose store calls throws, run concurrently from
  the start; \<open>sched\<close> is any interleaving of their store calls and \<open>(ps, w)\<close> is where it
  leads.
  \<^item> The interleaving is finite: it has at most 16 store calls.
  \<^item> The two clients are never both between their \<^verbatim>\<open>SELECT ... FOR UPDATE\<close> and their
    \<^verbatim>\<open>COMMIT\<close> or \<^verbatim>\<open>ROLLBACK\<close>: the row lock puts the two attempts in one order.
  \<^item> When both have answered, one has sent the page of the bound key and the other
    "already claimed", and the row is consumed. That page is the page of no other key,
    and for a key without \<^verbatim>\<open>&\<close>, \<^verbatim>\<open><\<close>, \<^verbatim>\<open>>\<close> and quotes it is the 200 answer, not to be
    stored, whose body shows the key as it is.
  \<^item> Until both have answered, one of them has a step, and the run can be carried on
    until both have answered: nobody waits for ever.
  \<^item> A client that found the row unconsumed under the lock stays the one that is served
    the key, however the run goes on.
\<close>

theorem concurrent_redeem:
  assumes "uuid_in (params_pageId req1) = Some L" and "uuid_in (params_pageId req2) = Some L"
    and "no_key_faults env1" and "no_key_faults env2"
    and "row_at s L = Some r" and "\<not> used r"
    and "exec [(req1, env1), (req2, env2)] sched (start 2 s) = Some (ps, w)"
  shows "length sched \<le> 16
    \<and> \<not> (in_cs (fst (ps ! 0)) \<and> in_cs (fst (ps ! 1)))
    \<and> (is_done (fst (ps ! 0)) \<and> is_done (fst (ps ! 1)) \<longrightarrow>
         (map fst ps = [P_done (serve_key (issued_key_text r)), P_done already_claimed]
          \<or> map fst ps = [P_done already_claimed, P_done (serve_key (issued_key_text r))])
         \<and> (\<forall>k. serve_key (issued_key_text r) = serve_key k \<longrightarrow> k = issued_key_text r)
         \<and> (plain (issued_key_text r) \<longrightarrow>
               serve_key (issued_key_text r) =
                 Send 200 [(''Cache-Control'', ''no-store, no-cache, must-revalidate, private'')]
                 (''<html><head><meta name='' @ [CHR 0x22] @ ''robots'' @ [CHR 0x22] @
                  '' content='' @ [CHR 0x22] @ ''noindex'' @ [CHR 0x22] @
                  ''></head><body><h1>Your Key</h1><p style='' @ [CHR 0x22] @
                  ''font-family:monospace;font-size:18px;'' @ [CHR 0x22] @ ''>'' @
                  issued_key_text r @
                  ''</p><p>Do not share this link '' @ [CHR 0xE2, CHR 0x80, CHR 0x94] @
                  '' it is single-use.</p></body></html>''))
         \<and> (\<exists>r'. row_at (w_store w) L = Some r' \<and> used r'))
    \<and> (\<not> (is_done (fst (ps ! 0)) \<and> is_done (fst (ps ! 1))) \<longrightarrow>
         (\<exists>j<2. conc_step [(req1, env1), (req2, env2)] j (ps, w) \<noteq> None))
    \<and> (\<exists>sched' ps' w'. exec [(req1, env1), (req2, env2)] sched' (ps, w) = Some (ps', w')
           \<and> is_done (fst (ps' ! 0)) \<and> is_done (fst (ps' ! 1)))
    \<and> (\<forall>j sched' ps' w'. j < 2 \<and> on_win_path (fst (ps ! j))
           \<and> exec [(req1, env1), (req2, env2)] sched' (ps, w) = Some (ps', w') \<longrightarrow>
           on_win_path (fst (ps' ! j)))"
proof -
  let ?cl = "[(req1, env1), (req2, env2)]"
  let ?k = "issued_key_text r"
  have good: "same_link ?cl L" using assms(1-4) by (simp add: same_link_def)
  have "conc_inv ?cl L ?k (start (length ?cl) s)" by (rule conc_inv_start) fact+
  then have "conc_inv ?cl L ?k (start 2 s)" by (simp add: numeral_2_eq_2)
  from exec_inv [OF good this assms(7)] have inv: "conc_inv ?cl L ?k (ps, w)" .
  then have len: "length ps = 2" by (auto elim: conc_invE)
  have a: "length sched \<le> 16"
    using exec_weight [OF assms(7)] by (simp add: weight_def start_def numeral_2_eq_2)
  have b: "\<not> (in_cs (fst (ps ! 0)) \<and> in_cs (fst (ps ! 1)))"
    using inv_mutex [OF inv, of 0 1] by auto
  have page: "(\<forall>k. serve_key ?k = serve_key k \<longrightarrow> k = ?k)
         \<and> (plain ?k \<longrightarrow>
               serve_key ?k =
                 Send 200 [(''Cache-Control'', ''no-store, no-cache, must-revalidate, private'')]
                 (''<html><head><meta name='' @ [CHR 0x22] @ ''robots'' @ [CHR 0x22] @
                  '' content='' @ [CHR 0x22] @ ''noindex'' @ [CHR 0x22] @
                  ''></head><body><h1>Your Key</h1><p style='' @ [CHR 0x22] @
                  ''font-family:monospace;font-size:18px;'' @ [CHR 0x22] @ ''>'' @
                  ?k @
                  ''</p><p>Do not share this link '' @ [CHR 0xE2, CHR 0x80, CHR 0x94] @
                  '' it is single-use.</p></body></html>''))"
    using serve_key_inj [of ?k] serve_key_plain [of ?k] by blast
  have c: "(map fst ps = [P_done (serve_key ?k), P_done already_claimed]
          \<or> map fst ps = [P_done already_claimed, P_done (serve_key ?k)])
         \<and> (\<exists>r'. row_at (w_store w) L = Some r' \<and> used r')"
    if fin: "is_done (fst (ps ! 0)) \<and> is_done (fst (ps ! 1))"
  proof -
    have all: "\<forall>i<length ?cl. is_done (fst (ps ! i))" using fin by (auto simp: less_Suc_eq)
    from inv_final [OF inv all] have "(\<exists>r'. row_at (w_store w) L = Some r' \<and> used r') \<and>
       (\<exists>i<2. fst (ps ! i) = P_done (serve_key ?k) \<and>
          (\<forall>j<2. j \<noteq> i \<longrightarrow> fst (ps ! j) = P_done already_claimed))"
      by (simp add: numeral_2_eq_2)
    then obtain i where
      u: "\<exists>r'. row_at (w_store w) L = Some r' \<and> used r'" and i: "i < 2"
      "fst (ps ! i) = P_done (serve_key ?k)"
      "\<forall>j<2. j \<noteq> i \<longrightarrow> fst (ps ! j) = P_done already_claimed" by blast
    from i(1) have "i = 0 \<or> i = 1" by auto
    then have "map fst ps = [P_done (serve_key ?k), P_done already_claimed]
          \<or> map fst ps = [P_done already_claimed, P_done (serve_key ?k)]"
    proof
      assume "i = 0"
      with i(2,3) have "fst (ps ! 0) = P_done (serve_key ?k)" "fst (ps ! 1) = P_done already_claimed"
        by auto
      then show ?thesis using list2 [OF len] by (metis (no_types) list.simps(8,9))
    next
      assume "i = 1"
      with i(2,3) have "fst (ps ! 1) = P_done (serve_key ?k)" "fst (ps ! 0) = P_done already_claimed"
        by auto
      then show ?thesis using list2 [OF len] by (metis (no_types) list.simps(8,9))
    qed
    with u show ?thesis by simp
  qed
  have d: "\<exists>j<2. conc_step ?cl j (ps, w) \<noteq> None"
    if "\<not> (is_done (fst (ps ! 0)) \<and> is_done (fst (ps ! 1)))"
  proof -
    from that obtain i where "i < length ?cl" "\<not> is_done (fst (ps ! i))" by auto
    from inv_progress [OF good inv this] show ?thesis by (simp add: numeral_2_eq_2)
  qed
  have e: "\<forall>j sched' ps' w'. j < 2 \<and> on_win_path (fst (ps ! j))
           \<and> exec ?cl sched' (ps, w) = Some (ps', w') \<longrightarrow> on_win_path (fst (ps' ! j))"
    using exec_win_path [OF good, of _ "(ps, w)"] by fastforce
  from exec_completes [OF good inv] obtain sched' c' where
    "exec ?cl sched' (ps, w) = Some c'" "\<forall>i<length ?cl. is_done (fst (fst c' ! i))" by blast
  then have "exec ?cl sched' (ps, w) = Some (fst c', snd c')
      \<and> is_done (fst (fst c' ! 0)) \<and> is_done (fst (fst c' ! 1))" by simp
  then have f: "\<exists>sched' ps' w'. exec ?cl sched' (ps, w) = Some (ps', w')
           \<and> is_done (fst (ps' ! 0)) \<and> is_done (fst (ps' ! 1))" by blast
  from c page have c': "is_done (fst (ps ! 0)) \<and> is_done (fst (ps ! 1)) \<longrightarrow>
         (map fst ps = [P_done (serve_key ?k), P_done already_claimed]
          \<or> map fst ps = [P_done already_claimed, P_done (serve_key ?k)])
         \<and> (\<forall>k. serve_key ?k = serve_key k \<longrightarrow> k = ?k)
         \<and> (plain ?k \<longrightarrow>
               serve_key ?k =
                 Send 200 [(''Cache-Control'', ''no-store, no-cache, must-revalidate, private'')]
                 (''<html><head><meta name='' @ [CHR 0x22] @ ''robots'' @ [CHR 0x22] @
                  '' content='' @ [CHR 0x22] @ ''noindex'' @ [CHR 0x22] @
                  ''></head><body><h1>Your Key</h1><p style='' @ [CHR 0x22] @
                  ''font-family:monospace;font-size:18px;'' @ [CHR 0x22] @ ''>'' @
                  ?k @
                  ''</p><p>Do not share this link '' @ [CHR 0xE2, CHR 0x80, CHR 0x94] @
                  '' it is single-use.</p></body></html>''))
         \<and> (\<exists>r'. row_at (w_store w) L = Some r' \<and> used r')" by blast
  from a b c' d e f show ?thesis by blast
qed

theorem concurrent_redeem_witness:
  "uuid_in (params_pageId key_req0) = Some id1 \<and> uuid_in (params_pageId key_req1) = Some id1
   \<and> no_key_faults key_env0 \<and> row_at store1 id1 = Some row0 \<and> \<not> used row0
   \<and> plain (issued_key_text row0)
   \<and> exec clients0 sched0 (start 2 store1) \<noteq> None
   \<and> map fst (fst (the (exec clients0 sched0 (start 2 store1)))) =
        [P_done (serve_key ''K1''), P_done already_claimed]
   \<and> conc_step clients0 (Suc 0) (the (exec clients0 [0, 0, 0, Suc 0, Suc 0] (start 2 store1))) = None"
  using concurrent_redeem [of key_req0 id1 key_req1 key_env0 key_env0 store1 row0 sched0
      "fst (the (exec clients0 sched0 (start 2 store1)))"
      "snd (the (exec clients0 sched0 (start 2 store1)))"]
  by (simp add: example_defs uuid_examples sched0_def clients0_def start_def conc_step_def
      no_key_faults_def row_at_def release_def mark_used_def clientIp_def ua_def
      already_claimed_def invalid_link_def server_error_def plain_def numeral_2_eq_2)

section \<open>Issuance\<close>

text \<open>
  Claim C3, as amended. When \<^verbatim>\<open>SPOP\<close> does not throw:
  \<^item> the answer is "No keys available" exactly when the pool is empty or the entry
    popped is the empty string;
  \<^item> an empty pool stays empty, and from a non-empty pool exactly the popped entry is
    gone afterwards (also when a later step fails);
  \<^item> the answer is the redirect to the new link exactly when a non-empty entry was popped,
    the generated id is uuid text (what \<^verbatim>\<open>uuidv4()\<close> returns always is), no row with
    that id existed, and neither the \<^verbatim>\<open>INSERT\<close> nor the \<^verbatim>\<open>SETEX\<close> threw;
  \<^item> on that answer the link id is new (no row had it) and the row stored under it binds
    it to the popped key, with \<open>used = False\<close> and the consumption columns empty.
\<close>

theorem claim_outcomes:
  assumes "\<not> sPop_fails env"
  shows "(fst (claim cfg env s) = no_keys_available \<longleftrightarrow> key_set s = [] \<or> popped env s = [])
    \<and> (key_set s = [] \<longrightarrow> key_set (snd (claim cfg env s)) = [])
    \<and> (key_set s \<noteq> [] \<longrightarrow> popped env s \<in> set (key_set s)
          \<and> set (key_set (snd (claim cfg env s))) = set (key_set s) - {popped env s})
    \<and> (fst (claim cfg env s) = Redirect (''/key/'' @ uuid env) \<longleftrightarrow>
          key_set s \<noteq> [] \<and> popped env s \<noteq> [] \<and> \<not> insert_fails env
          \<and> uuid_in (uuid env) \<noteq> None \<and> row_of s (uuid env) = None \<and> \<not> setEx_fails env)
    \<and> (fst (claim cfg env s) = Redirect (''/key/'' @ uuid env) \<longrightarrow>
          row_of s (uuid env) = None
          \<and> row_of (snd (claim cfg env s)) (uuid env) =
              Some \<lparr>issued_key_text = popped env s, created_at = now env, used = False,
                    used_at = None, ip = None, user_agent = None\<rparr>)"
  using assms
  by (auto simp: claim_defs Let_def response_defs map_add_def split: option.splits)

theorem claim_outcomes_witness:
  "\<not> sPop_fails claim_env0
   \<and> popped claim_env0 (store0\<lparr>key_set := [''K1'', ''K2'']\<rparr>) = ''K1''
   \<and> uuid_in (uuid claim_env0) = Some id1
   \<and> fst (claim cfg0 claim_env0 (store0\<lparr>key_set := [''K1'', ''K2'']\<rparr>)) = Redirect (''/key/'' @ link1)
   \<and> set (key_set (snd (claim cfg0 claim_env0 (store0\<lparr>key_set := [''K1'', ''K2'']\<rparr>)))) = {''K2''}
   \<and> row_of (snd (claim cfg0 claim_env0 (store0\<lparr>key_set := [''K1'', ''K2'']\<rparr>))) link1 = Some row0
   \<and> fst (claim cfg0 claim_env0 store0) = no_keys_available"
  using claim_outcomes [of claim_env0 cfg0 "store0\<lparr>key_set := [''K1'', ''K2'']\<rparr>"]
    claim_outcomes [of claim_env0 cfg0 store0]
  by (simp add: example_defs uuid_examples popped_def row_of_def row_at_def)

theorem claim_no_inventory_counterexample:
  "fst (claim cfg0 claim_env0 (store0\<lparr>key_set := [[], ''K1'']\<rparr>)) = no_keys_available
   \<and> key_set (store0\<lparr>key_set := [[], ''K1'']\<rparr>) \<noteq> []"
  by (simp add: claim_defs example_defs)

section \<open>Redemption\<close>

text \<open>
  What a key request answers, for a page id that is uuid text and for one that is not.
  \<^item> "Invalid or expired link" is only answered when the page id is uuid text and no row
    has that uuid, and "already claimed" only when the row is \<open>used\<close>; in both cases the
    store is left as it was (whatever the faults).
  \<^item> When no call throws for a reason outside the program: a page id that is not uuid
    text is answered 500 with the store as it was; a page id that is uuid text is answered
    "Invalid or expired link" when no row has it, "already claimed" when the row is
    \<open>used\<close>, and for an unused row the key page is sent and the committed row is the old
    one with \<open>used\<close> set and \<open>used_at\<close>, \<open>ip\<close> and \<open>user_agent\<close> stamped from the
    request; no other row, the pool and the catalog do not change.
\<close>

lemma get_key_outcomes:
  "(fst (get_key req env s) = invalid_link \<longrightarrow>
      uuid_in (params_pageId req) \<noteq> None \<and> row_of s (params_pageId req) = None
      \<and> snd (get_key req env s) = s)
   \<and> (fst (get_key req env s) = already_claimed \<longrightarrow>
      (\<exists>r. row_of s (params_pageId req) = Some r \<and> used r) \<and> snd (get_key req env s) = s)
   \<and> (no_key_faults env \<longrightarrow>
      (uuid_in (params_pageId req) = None \<longrightarrow> get_key req env s = (server_error, s))
      \<and> (uuid_in (params_pageId req) \<noteq> None \<and> row_of s (params_pageId req) = None \<longrightarrow>
           fst (get_key req env s) = invalid_link)
      \<and> (\<forall>r. row_of s (params_pageId req) = Some r \<longrightarrow>
           (used r \<longrightarrow> fst (get_key req env s) = already_claimed)
           \<and> (\<not> used r \<longrightarrow>
                fst (get_key req env s) = serve_key (issued_key_text r)
                \<and> row_of (snd (get_key req env s)) (params_pageId req) =
                     Some (r\<lparr>used := True, used_at := Some (key_now env), ip := clientIp req,
                             user_agent := Some (ua req)\<rparr>)
                \<and> (\<forall>j. uuid_in j \<noteq> uuid_in (params_pageId req) \<longrightarrow>
                       row_of (snd (get_key req env s)) j = row_of s j)
                \<and> key_set (snd (get_key req env s)) = key_set s
                \<and> keys (snd (get_key req env s)) = keys s)))"
  by (auto simp: get_key_defs no_key_faults_def Let_def response_defs map_of_mark mark_used_def
      split: option.splits list.splits sum.splits if_splits)

lemma get_key_outcomes_example:
  "no_key_faults key_env0
   \<and> get_key key_req0 key_env0 store0 = (invalid_link, store0)
   \<and> row_of store1 (params_pageId key_req0) = Some row0
   \<and> fst (get_key key_req0 key_env0 store1) = serve_key ''K1''
   \<and> fst (get_key key_req1 key_env0 store1) = serve_key ''K1''
   \<and> row_of (snd (get_key key_req0 key_env0 store1)) link1_upper =
        Some (row0\<lparr>used := True, used_at := Some 9, ip := Some ''10.0.0.1'', user_agent := Some ''curl''\<rparr>)
   \<and> fst (get_key key_req1 key_env0 (snd (get_key key_req0 key_env0 store1))) = already_claimed"
  using get_key_outcomes [of key_req0 key_env0 store0]
    get_key_outcomes [of key_req0 key_env0 store1]
    get_key_outcomes [of key_req1 key_env0 store1]
    get_key_outcomes [of key_req1 key_env0 "snd (get_key key_req0 key_env0 store1)"]
  by (simp add: example_defs uuid_examples no_key_faults_def row_of_def row_at_def clientIp_def
      ua_def prod_eq_iff)

text \<open>
  Claim C4, on the page id \<^verbatim>\<open>does-not-exist\<close>, which names no row, with no call throwing
  for a reason outside the program, on the store that holds one link: Postgres does not
  read the text as a uuid, the \<^verbatim>\<open>SELECT\<close> throws, and the answer is 500, not "Invalid
  or expired link"; the store is as it was.
\<close>

theorem get_key_no_uuid:
  "no_key_faults key_env0
   \<and> row_of store1 no_link = None
   \<and> get_key (key_req0\<lparr>params_pageId := no_link\<rparr>) key_env0 store1 = (server_error, store1)
   \<and> server_error \<noteq> invalid_link"
  by (simp add: get_key_defs example_defs uuid_examples no_key_faults_def response_defs)

section \<open>Faults while the key is served\<close>

text \<open>
  Every fault inside the transaction is followed by \<^verbatim>\<open>ROLLBACK\<close>: a 500 answer that
  does not come from the deletion of the marker leaves the store as it was.
\<close>

lemma get_key_rollback:
  "fst (get_key req env s) = server_error \<Longrightarrow> \<not> del_fails env \<Longrightarrow> snd (get_key req env s) = s"
  by (auto simp: get_key_defs response_defs split: option.splits list.splits if_splits)

text \<open>
  The deletion of the marker is awaited inside the same \<^verbatim>\<open>try\<close>, after \<^verbatim>\<open>COMMIT\<close>:
  when it throws, the answer is 500 and the row is consumed all the same.
\<close>

lemma get_key_marker_fault:
  assumes "\<not> connect_fails env" and "\<not> begin_fails env" and "\<not> select_fails env"
    and "\<not> update_fails env" and "\<not> commit_fails env" and "del_fails env"
    and "row_of s (params_pageId req) = Some r" and "\<not> used r"
  shows "fst (get_key req env s) = server_error
       \<and> consumed (snd (get_key req env s)) (params_pageId req)
       \<and> redis_kv (snd (get_key req env s)) = redis_kv s"
  using assms
  by (auto simp: get_key_defs consumed_def map_of_mark mark_used_def split: option.splits)

text \<open>
  Claim C5, on the link \<open>link1\<close> bound to \<^verbatim>\<open>K1\<close> and not yet consumed, with the
  deletion of the marker throwing: the request is answered 500 instead of the key page, the
  row is committed as consumed, and the next request for the link, with no fault, is
  answered "already claimed". The key is never delivered.
\<close>

theorem get_key_del_fails:
  "fst (get_key key_req0 (key_env0\<lparr>del_fails := True\<rparr>) store1) = server_error
   \<and> row_of (snd (get_key key_req0 (key_env0\<lparr>del_fails := True\<rparr>) store1)) link1 =
        Some (row0\<lparr>used := True, used_at := Some 9, ip := Some ''10.0.0.1'', user_agent := Some ''curl''\<rparr>)
   \<and> fst (get_key key_req0 key_env0 (snd (get_key key_req0 (key_env0\<lparr>del_fails := True\<rparr>) store1)))
        = already_claimed"
  by (simp add: get_key_defs example_defs uuid_examples mark_used_def clientIp_def ua_def)

section \<open>A marker that cannot be created\<close>

text \<open>
  \<^verbatim>\<open>SETEX\<close> is awaited inside the one \<^verbatim>\<open>try\<close> of the claim handler. When it throws
  after the row has been stored, the request is answered 500 and no link is returned; the
  row stays stored, unconsumed and bound to the popped key, the key stays out of the pool,
  and no marker is set.
\<close>

lemma claim_marker_fault:
  assumes "\<not> sPop_fails env" and "key_set s \<noteq> []" and "popped env s \<noteq> []"
    and "\<not> insert_fails env" and "uuid_in (uuid env) \<noteq> None" and "row_of s (uuid env) = None"
    and "setEx_fails env"
  shows "fst (claim cfg env s) = server_error
       \<and> row_of (snd (claim cfg env s)) (uuid env) =
            Some \<lparr>issued_key_text = popped env s, created_at = now env, used = False,
                  used_at = None, ip = None, user_agent = None\<rparr>
       \<and> popped env s \<notin> set (key_set (snd (claim cfg env s)))
       \<and> redis_kv (snd (claim cfg env s)) = redis_kv s"
  using assms by (auto simp: claim_defs map_add_def split: option.splits)

text \<open>
  Claim C6, on a pool holding \<^verbatim>\<open>K1\<close> with the creation of the marker throwing: the
  answer is 500, not the redirect to the link, although the row for the link is stored and
  the pool has lost \<^verbatim>\<open>K1\<close>. Nobody is told the link, so the key is lost.
\<close>

theorem claim_setEx_rejects:
  "fst (claim cfg0 (claim_env0\<lparr>setEx_fails := True\<rparr>) (store0\<lparr>key_set := [''K1'']\<rparr>)) = server_error
   \<and> fst (claim cfg0 (claim_env0\<lparr>setEx_fails := True\<rparr>) (store0\<lparr>key_set := [''K1'']\<rparr>))
        \<noteq> Redirect (''/key/'' @ link1)
   \<and> row_of (snd (claim cfg0 (claim_env0\<lparr>setEx_fails := True\<rparr>) (store0\<lparr>key_set := [''K1'']\<rparr>))) link1
        = Some row0
   \<and> key_set (snd (claim cfg0 (claim_env0\<lparr>setEx_fails := True\<rparr>) (store0\<lparr>key_set := [''K1'']\<rparr>))) = []"
  by (simp add: claim_defs example_defs uuid_examples response_defs)

section \<open>Refill and round trip\<close>

lemma foldl_sAdd_set: "set (foldl (\<lambda>acc k. redis_sAdd k acc) acc ks) = set acc \<union> set ks"
  by (induction ks arbitrary: acc) (auto simp: redis_sAdd_set)

lemma foldl_sAdd_distinct:
  "distinct acc \<Longrightarrow> distinct (foldl (\<lambda>acc k. redis_sAdd k acc) acc ks)"
  by (induction ks arbitrary: acc) (auto simp: redis_sAdd_def)

lemma foldl_sAdd_present:
  "set ks \<subseteq> set acc \<Longrightarrow> foldl (\<lambda>acc k. redis_sAdd k acc) acc ks = acc"
  by (induction ks arbitrary: acc) (auto simp: redis_sAdd_def)

lemma foldl_sAdd_twice:
  "foldl (\<lambda>acc k. redis_sAdd k acc) (foldl (\<lambda>acc k. redis_sAdd k acc) acc ks) ks =
     foldl (\<lambda>acc k. redis_sAdd k acc) acc ks"
  by (rule foldl_sAdd_present) (simp add: foldl_sAdd_set)

lemma admin_seed_redis_ok:
  assumes "seed_accepted cfg req" and "\<not> select_keys_fails env" and "\<not> exec_fails env"
  shows "admin_seed_redis cfg req env s =
     (if selected_keys s = [] then (Send 200 [] ''no keys in DB'', s)
      else (Send 200 []
              (''seeded '' @ show_nat (length (selected_keys s)) @ '' keys to redis set '' @ KEY_SET cfg),
            s\<lparr>key_set := foldl (\<lambda>acc k. redis_sAdd k acc) (key_set s) (selected_keys s)\<rparr>))"
  using assms
  by (simp add: admin_seed_redis_def seed_accepted_def pg_select_keys_def
      redis_multi_sAdd_exec_def selected_keys_def Let_def)

lemma admin_seed_redis_200:
  assumes "status_200 (fst (admin_seed_redis cfg req env s))"
  shows "set (selected_keys s) \<subseteq> set (key_set (snd (admin_seed_redis cfg req env s)))"
  using assms
  by (auto simp: admin_seed_redis_def pg_select_keys_def redis_multi_sAdd_exec_def
      selected_keys_def Let_def response_defs foldl_sAdd_set filter_empty_conv split: if_splits)

lemma claim_redirect:
  assumes "fst (claim cfg env s) = Redirect l"
  shows "l = ''/key/'' @ uuid env \<and> key_set s \<noteq> [] \<and> popped env s \<noteq> []
     \<and> (\<exists>r. row_of (snd (claim cfg env s)) (uuid env) = Some r
            \<and> issued_key_text r = popped env s \<and> \<not> used r)"
  using assms
  by (auto simp: claim_defs Let_def response_defs map_add_def split: option.splits if_splits)

text \<open>
  Claim C7. After a refill answered 200, every key of the catalog whose \<open>deprecated\<close>
  flag is false is in the pool. And when a claim is answered by the redirect to a link, and
  later (after any requests in between) a key request for that link is answered 200, what
  is sent is the page of the very entry the claim popped, which was in the pool: it is the
  page of no other key, and for a key without \<^verbatim>\<open>&\<close>, \<^verbatim>\<open><\<close>, \<^verbatim>\<open>>\<close> and quotes it is the
  200 answer, not to be stored, whose body shows the key as it is.
\<close>

theorem round_trip:
  "(status_200 (fst (admin_seed_redis cfg areq senv s0)) \<longrightarrow>
      (\<forall>row \<in> set (keys s0). deprecated row = Some False \<longrightarrow>
          key_text row \<in> set (key_set (snd (admin_seed_redis cfg areq senv s0)))))
   \<and> (fst (claim cfg cenv s) = Redirect (''/key/'' @ params_pageId req)
       \<and> status_200 (fst (get_key req kenv (snd (run cfg rs (snd (claim cfg cenv s)))))) \<longrightarrow>
          popped cenv s \<in> set (key_set s)
          \<and> fst (get_key req kenv (snd (run cfg rs (snd (claim cfg cenv s))))) =
               serve_key (popped cenv s)
          \<and> (\<forall>k. fst (get_key req kenv (snd (run cfg rs (snd (claim cfg cenv s))))) = serve_key k
                 \<longrightarrow> k = popped cenv s)
          \<and> (plain (popped cenv s) \<longrightarrow>
               fst (get_key req kenv (snd (run cfg rs (snd (claim cfg cenv s))))) =
                 Send 200 [(''Cache-Control'', ''no-store, no-cache, must-revalidate, private'')]
                 (''<html><head><meta name='' @ [CHR 0x22] @ ''robots'' @ [CHR 0x22] @
                  '' content='' @ [CHR 0x22] @ ''noindex'' @ [CHR 0x22] @
                  ''></head><body><h1>Your Key</h1><p style='' @ [CHR 0x22] @
                  ''font-family:monospace;font-size:18px;'' @ [CHR 0x22] @ ''>'' @
                  popped cenv s @
                  ''</p><p>Do not share this link '' @ [CHR 0xE2, CHR 0x80, CHR 0x94] @
                  '' it is single-use.</p></body></html>'')))"
proof -
  have a: "status_200 (fst (admin_seed_redis cfg areq senv s0)) \<longrightarrow>
      (\<forall>row \<in> set (keys s0). deprecated row = Some False \<longrightarrow>
          key_text row \<in> set (key_set (snd (admin_seed_redis cfg areq senv s0))))"
    using admin_seed_redis_200 [of cfg areq senv s0] by (auto simp: selected_keys_def)
  have b: "popped cenv s \<in> set (key_set s)
          \<and> fst (get_key req kenv (snd (run cfg rs (snd (claim cfg cenv s))))) =
               serve_key (popped cenv s)"
    if red: "fst (claim cfg cenv s) = Redirect (''/key/'' @ params_pageId req)"
      and ok: "status_200 (fst (get_key req kenv (snd (run cfg rs (snd (claim cfg cenv s))))))"
  proof -
    let ?s1 = "snd (claim cfg cenv s)" and ?s2 = "snd (run cfg rs (snd (claim cfg cenv s)))"
    from claim_redirect [OF red] obtain r where
      pid: "params_pageId req = uuid cenv" and ne: "key_set s \<noteq> []"
      and r: "row_of ?s1 (uuid cenv) = Some r" "issued_key_text r = popped cenv s" by auto
    from run_row [OF r(1), of cfg rs] obtain r2 where
      r2: "row_of ?s2 (uuid cenv) = Some r2" "issued_key_text r2 = issued_key_text r" by blast
    from get_key_200 [OF ok] pid r2 r(2)
    have "fst (get_key req kenv ?s2) = serve_key (popped cenv s)" by auto
    with popped_in [OF ne] show ?thesis by simp
  qed
  have c: "(\<forall>k. serve_key (popped cenv s) = serve_key k \<longrightarrow> k = popped cenv s)
          \<and> (plain (popped cenv s) \<longrightarrow>
               serve_key (popped cenv s) =
                 Send 200 [(''Cache-Control'', ''no-store, no-cache, must-revalidate, private'')]
                 (''<html><head><meta name='' @ [CHR 0x22] @ ''robots'' @ [CHR 0x22] @
                  '' content='' @ [CHR 0x22] @ ''noindex'' @ [CHR 0x22] @
                  ''></head><body><h1>Your Key</h1><p style='' @ [CHR 0x22] @
                  ''font-family:monospace;font-size:18px;'' @ [CHR 0x22] @ ''>'' @
                  popped cenv s @
                  ''</p><p>Do not share this link '' @ [CHR 0xE2, CHR 0x80, CHR 0x94] @
                  '' it is single-use.</p></body></html>''))"
    using serve_key_inj [of "popped cenv s"] serve_key_plain [of "popped cenv s"] by blast
  from b c have d: "fst (claim cfg cenv s) = Redirect (''/key/'' @ params_pageId req)
       \<and> status_200 (fst (get_key req kenv (snd (run cfg rs (snd (claim cfg cenv s)))))) \<longrightarrow>
          popped cenv s \<in> set (key_set s)
          \<and> fst (get_key req kenv (snd (run cfg rs (snd (claim cfg cenv s))))) =
               serve_key (popped cenv s)
          \<and> (\<forall>k. fst (get_key req kenv (snd (run cfg rs (snd (claim cfg cenv s))))) = serve_key k
                 \<longrightarrow> k = popped cenv s)
          \<and> (plain (popped cenv s) \<longrightarrow>
               fst (get_key req kenv (snd (run cfg rs (snd (claim cfg cenv s))))) =
                 Send 200 [(''Cache-Control'', ''no-store, no-cache, must-revalidate, private'')]
                 (''<html><head><meta name='' @ [CHR 0x22] @ ''robots'' @ [CHR 0x22] @
                  '' content='' @ [CHR 0x22] @ ''noindex'' @ [CHR 0x22] @
                  ''></head><body><h1>Your Key</h1><p style='' @ [CHR 0x22] @
                  ''font-family:monospace;font-size:18px;'' @ [CHR 0x22] @ ''>'' @
                  popped cenv s @
                  ''</p><p>Do not share this link '' @ [CHR 0xE2, CHR 0x80, CHR 0x94] @
                  '' it is single-use.</p></body></html>''))"
    by metis
  from a d show ?thesis by blast
qed

theorem round_trip_witness:
  "status_200 (fst (admin_seed_redis cfg0 admin_req0 seed_env0 store2))
   \<and> ''K1'' \<in> set (key_set (snd (admin_seed_redis cfg0 admin_req0 seed_env0 store2)))
   \<and> popped (claim_env0\<lparr>rnd := 1\<rparr>) (snd (admin_seed_redis cfg0 admin_req0 seed_env0 store2)) = ''K1''
   \<and> plain ''K1''
   \<and> fst (claim cfg0 (claim_env0\<lparr>rnd := 1\<rparr>) (snd (admin_seed_redis cfg0 admin_req0 seed_env0 store2)))
        = Redirect (''/key/'' @ link1)
   \<and> fst (get_key key_req0 key_env0
        (snd (run cfg0 [Issued admin_req0 False]
          (snd (claim cfg0 (claim_env0\<lparr>rnd := 1\<rparr>)
             (snd (admin_seed_redis cfg0 admin_req0 seed_env0 store2))))))) = serve_key ''K1''"
  using round_trip [of cfg0 admin_req0 seed_env0 store2 "claim_env0\<lparr>rnd := 1\<rparr>"
      "snd (admin_seed_redis cfg0 admin_req0 seed_env0 store2)" key_req0 key_env0
      "[Issued admin_req0 False]"]
  by (simp add: get_key_defs claim_defs example_defs uuid_examples mark_used_def clientIp_def
      ua_def no_keys_available_def server_error_def invalid_link_def already_claimed_def
      unauthorized_def seed_token_def admin_seed_redis_def issued_token_def admin_issued_def
      pg_select_keys_def redis_multi_sAdd_exec_def redis_sAdd_def pg_select_recent_def plain_def)

text \<open>
  Claim C8. For a refill that passes the token check, with no store call throwing in
  either call:
  \<^item> the answer is 200;
  \<^item> the pool afterwards holds what it held and the non-deprecated keys of the catalog,
    and nothing twice if it held nothing twice;
  \<^item> adding an entry the pool holds changes nothing;
  \<^item> a second refill right after the first gives the same answer and the same store as
    the first one gave.
\<close>

theorem refill_idempotent:
  assumes "seed_accepted cfg req" and "\<not> select_keys_fails env" and "\<not> exec_fails env"
    and "\<not> select_keys_fails env'" and "\<not> exec_fails env'"
  shows "status_200 (fst (admin_seed_redis cfg req env s))
    \<and> set (key_set (snd (admin_seed_redis cfg req env s))) = set (key_set s) \<union> set (selected_keys s)
    \<and> (distinct (key_set s) \<longrightarrow> distinct (key_set (snd (admin_seed_redis cfg req env s))))
    \<and> (\<forall>k \<in> set (key_set s). redis_sAdd k (key_set s) = key_set s)
    \<and> admin_seed_redis cfg req env' (snd (admin_seed_redis cfg req env s)) =
        admin_seed_redis cfg req env s"
proof -
  let ?s1 = "snd (admin_seed_redis cfg req env s)"
  have sel: "selected_keys ?s1 = selected_keys s"
    by (simp add: admin_seed_redis_ok [OF assms(1-3)] selected_keys_def)
  have "status_200 (fst (admin_seed_redis cfg req env s))"
    by (simp add: admin_seed_redis_ok [OF assms(1-3)])
  moreover have "set (key_set ?s1) = set (key_set s) \<union> set (selected_keys s)"
    by (auto simp: admin_seed_redis_ok [OF assms(1-3)] foldl_sAdd_set)
  moreover have "distinct (key_set s) \<longrightarrow> distinct (key_set ?s1)"
    by (simp add: admin_seed_redis_ok [OF assms(1-3)] foldl_sAdd_distinct)
  moreover have "\<forall>k \<in> set (key_set s). redis_sAdd k (key_set s) = key_set s"
    by (simp add: redis_sAdd_def)
  moreover have "admin_seed_redis cfg req env' ?s1 = admin_seed_redis cfg req env s"
    unfolding admin_seed_redis_ok [OF assms(1,4,5), of ?s1] sel
    by (simp add: admin_seed_redis_ok [OF assms(1-3)] foldl_sAdd_twice)
  ultimately show ?thesis by blast
qed

theorem refill_idempotent_witness:
  "seed_accepted cfg0 admin_req0
   \<and> key_set (snd (admin_seed_redis cfg0 admin_req0 seed_env0 store2)) = [''K2'', ''K1'']
   \<and> admin_seed_redis cfg0 admin_req0 seed_env0 (snd (admin_seed_redis cfg0 admin_req0 seed_env0 store2))
        = (Send 200 [] ''seeded 2 keys to redis set unused_keys'',
           store2\<lparr>key_set := [''K2'', ''K1'']\<rparr>)"
  using refill_idempotent [of cfg0 admin_req0 seed_env0 seed_env0 store2]
  by (simp add: example_defs seed_accepted_def seed_token_def admin_seed_redis_def
      pg_select_keys_def redis_multi_sAdd_exec_def redis_sAdd_def selected_keys_def)

section \<open>Admin requests without the token\<close>

lemma rejects_unless_matches:
  "\<not> credential_matches cfg token \<Longrightarrow> \<not> truthy token \<or> strict_neq token (ADMIN_TOKEN cfg)"
  by (cases token; cases "ADMIN_TOKEN cfg") (auto simp: credential_matches_def)

text \<open>
  Claim C9. A refill whose credential (the header, or else the body's token) is not the
  configured admin token, and an inspection whose header is not, are answered 401 with the
  store as it was; the answer is the same whatever the store holds and whatever the store
  calls would have done, so nothing was read.
\<close>

theorem admin_unauthorized:
  "(\<not> credential_matches cfg (seed_token req) \<longrightarrow>
      admin_seed_redis cfg req env s = (unauthorized, s)
      \<and> fst (admin_seed_redis cfg req env s) = fst (admin_seed_redis cfg req env' s'))
   \<and> (\<not> credential_matches cfg (issued_token req) \<longrightarrow>
      admin_issued cfg req query_fails s = (unauthorized, s)
      \<and> fst (admin_issued cfg req query_fails s) = fst (admin_issued cfg req query_fails' s'))"
  using rejects_unless_matches [of cfg "seed_token req"]
    rejects_unless_matches [of cfg "issued_token req"]
  by (auto simp: admin_seed_redis_def admin_issued_def Let_def)

theorem admin_unauthorized_witness:
  "\<not> credential_matches cfg0 (seed_token (admin_req0\<lparr>header_x_admin_token := Some ''guess''\<rparr>))
   \<and> admin_seed_redis cfg0 (admin_req0\<lparr>header_x_admin_token := Some ''guess''\<rparr>) seed_env0 store2
        = (unauthorized, store2)
   \<and> \<not> credential_matches cfg0 (issued_token (admin_req0\<lparr>header_x_admin_token := None\<rparr>))
   \<and> admin_issued cfg0 (admin_req0\<lparr>header_x_admin_token := None\<rparr>) False store1
        = (unauthorized, store1)"
  using admin_unauthorized [of cfg0 "admin_req0\<lparr>header_x_admin_token := Some ''guess''\<rparr>" seed_env0 store2]
    admin_unauthorized [of cfg0 "admin_req0\<lparr>header_x_admin_token := None\<rparr>" _ store1 _ _ False]
  by (simp add: example_defs credential_matches_def seed_token_def issued_token_def)

section \<open>An empty-string key\<close>

text \<open>
  Claim C10. When the entry popped is the empty string, the claim is answered "No keys
  available", as it is on an empty pool: no row is stored, no marker is set, and the empty
  string is gone from the pool.
\<close>

theorem claim_empty_string_key:
  assumes "\<not> sPop_fails env" and "key_set s \<noteq> []" and "popped env s = []"
  shows "fst (claim cfg env s) = no_keys_available
       \<and> fst (claim cfg env (s\<lparr>key_set := []\<rparr>)) = no_keys_available
       \<and> issued_pages (snd (claim cfg env s)) = issued_pages s
       \<and> redis_kv (snd (claim cfg env s)) = redis_kv s
       \<and> key_set (snd (claim cfg env s)) = removeAll [] (key_set s)"
  using assms by (simp add: claim_defs Let_def)

theorem claim_empty_string_key_witness:
  "\<not> sPop_fails claim_env0
   \<and> popped claim_env0 (store0\<lparr>key_set := [[], ''K1'']\<rparr>) = []
   \<and> fst (claim cfg0 claim_env0 (store0\<lparr>key_set := [[], ''K1'']\<rparr>)) = no_keys_available
   \<and> issued_pages (snd (claim cfg0 claim_env0 (store0\<lparr>key_set := [[], ''K1'']\<rparr>))) = []
   \<and> key_set (snd (claim cfg0 claim_env0 (store0\<lparr>key_set := [[], ''K1'']\<rparr>))) = [''K1'']"
  using claim_empty_string_key [of claim_env0 "store0\<lparr>key_set := [[], ''K1'']\<rparr>" cfg0]
  by (simp add: example_defs popped_def)

end
